theory Spec2Isabelle
  imports Main
begin

section \<open>The blocklist manager of hosts/BlockListManager.h\<close>

text \<open>
  The class \<open>BlocklistManager\<close> keeps two hash tables: \<open>blocklist\<close>, from a domain key
  to a \<open>BlockEntry\<close> holding a shared pointer to the redirect address, and
  \<open>addressPool\<close>, from an address string to the shared pointer created for it. The
  shared strings live in an explicit store (\<open>heap\<close>): a \<open>std::shared_ptr\<close> is a
  handle into that store, so that two pointers to one string are one handle.
  The file system is a parameter: it says, for every instant and path, what \<open>stat\<close>
  and opening the file give at that instant. Every system call and the
  \<open>usleep\<close> of the stability check advance the instant by one.
  The reader/writer lock is not modelled: the functions below are the code as one thread
  runs it. Logging is left out.
\<close>

subsection \<open>Data\<close>

type_synonym handle = nat

record timespec =
  tv_sec :: int
  tv_nsec :: int

record stat =
  st_mtim :: timespec
  st_size :: int

record BlockEntry =
  targetAddress :: handle

record FileInfo =
  modTime :: timespec
  fileSize :: int

record BlocklistManager =
  blocklist :: "string \<rightharpoonup> BlockEntry"
  addressPool :: "string \<rightharpoonup> handle"
  blocklistPath :: string
  lastFileInfo :: FileInfo
  heap :: "handle \<rightharpoonup> string"
  nextHandle :: handle

text \<open>
  What the file system shows for one path at one instant: no file (\<open>stat\<close> fails and
  so does opening), or a file with its \<open>stat\<close> result and, when it can be opened
  for reading, its bytes.
\<close>

datatype file_obs = Missing | Present stat "string option"

type_synonym world = "nat \<Rightarrow> string \<Rightarrow> file_obs"

definition stat_call :: "world \<Rightarrow> nat \<Rightarrow> string \<Rightarrow> stat option" where
  "stat_call w t path = (case w t path of Missing \<Rightarrow> None | Present s _ \<Rightarrow> Some s)"

definition open_call :: "world \<Rightarrow> nat \<Rightarrow> string \<Rightarrow> string option" where
  "open_call w t path = (case w t path of Missing \<Rightarrow> None | Present _ c \<Rightarrow> c)"

subsection \<open>Characters\<close>

text \<open>
  \<open>::tolower\<close> in the C locale: the letters \<open>A\<close> to \<open>Z\<close> (65 to 90) move to
  \<open>a\<close> to \<open>z\<close>, every other byte stays.
\<close>

definition tolower :: "char \<Rightarrow> char" where
  "tolower c =
     (let n = (of_char c :: nat) in if 65 \<le> n \<and> n \<le> 90 then char_of (n + 32) else c)"

text \<open>
  The white space that \<open>operator>>\<close> skips and stops at in the C locale: space,
  \<open>\t\<close>, \<open>\n\<close>, \<open>\v\<close>, \<open>\f\<close>, \<open>\r\<close>.
\<close>

definition isspace :: "char \<Rightarrow> bool" where
  "isspace c = (c \<in> set [CHR '' '', CHR 0x09, CHR 0x0A, CHR 0x0B, CHR 0x0C, CHR 0x0D])"

text \<open>The set given to \<open>find_last_not_of\<close>: space, \<open>\t\<close>, \<open>\r\<close>, \<open>\n\<close>.\<close>

definition trailing_ws :: "char \<Rightarrow> bool" where
  "trailing_ws c = (c \<in> set [CHR '' '', CHR 0x09, CHR 0x0D, CHR 0x0A])"

subsection \<open>The address pool\<close>

text \<open>
  \<open>getOrCreateAddress\<close>: the pooled pointer when the pool has the string, else
  \<open>make_shared\<close> allocates a new cell, the pool records it, and it is returned.
\<close>

definition getOrCreateAddress ::
  "BlocklistManager \<Rightarrow> string \<Rightarrow> handle \<times> BlocklistManager" where
  "getOrCreateAddress m addr =
     (case addressPool m addr of
        Some h \<Rightarrow> (h, m)
      | None \<Rightarrow>
          (let sharedAddr = nextHandle m
           in (sharedAddr,
               m\<lparr>heap := (heap m)(sharedAddr \<mapsto> addr),
                 nextHandle := Suc sharedAddr,
                 addressPool := (addressPool m)(addr \<mapsto> sharedAddr)\<rparr>)))"

subsection \<open>Lookup\<close>

text \<open>
  \<open>std::string::find(c, pos)\<close>: the first index at or after \<open>pos\<close> holding
  \<open>c\<close>; \<open>None\<close> is \<open>npos\<close>.
\<close>

definition find_from :: "string \<Rightarrow> char \<Rightarrow> nat \<Rightarrow> nat option" where
  "find_from s c pos =
     (if c \<in> set (drop pos s)
      then Some (pos + length (takeWhile (\<lambda>x. x \<noteq> c) (drop pos s)))
      else None)"

text \<open>
  Reading through a shared pointer: \<open>None\<close> is a pointer to no live string, where
  the C++ would have undefined behaviour.
\<close>

definition deref :: "BlocklistManager \<Rightarrow> BlockEntry \<Rightarrow> (bool \<times> string) option" where
  "deref m e = (case heap m (targetAddress e) of None \<Rightarrow> None | Some a \<Rightarrow> Some (True, a))"

text \<open>The \<open>while\<close> loop of \<open>lookupDomain\<close>, from position \<open>pos\<close>.\<close>

function wildcard_loop ::
  "BlocklistManager \<Rightarrow> string \<Rightarrow> nat \<Rightarrow> (bool \<times> string) option" where
  "wildcard_loop m domain pos =
     (case find_from domain (CHR ''.'') pos of
        None \<Rightarrow> Some (False, '''')
      | Some p \<Rightarrow>
          (case blocklist m (drop p domain) of
             Some e \<Rightarrow> deref m e
           | None \<Rightarrow> wildcard_loop m domain (Suc p)))"
  by pat_completeness auto
termination
proof (relation "measure (\<lambda>(m, domain, pos). length domain - pos)")
  show "wf (measure (\<lambda>(m, domain, pos). length domain - pos))"
    by simp
next
  fix m :: BlocklistManager and domain :: string and pos p :: nat
  assume f: "find_from domain (CHR ''.'') pos = Some p"
  then have mem: "CHR ''.'' \<in> set (drop pos domain)"
    and p: "p = pos + length (takeWhile (\<lambda>x. x \<noteq> CHR ''.'') (drop pos domain))"
    by (auto simp: find_from_def split: if_splits)
  have "CHR ''.'' \<in> set xs \<Longrightarrow> length (takeWhile (\<lambda>x. x \<noteq> CHR ''.'') xs) < length xs"
    for xs :: string
    by (induction xs) auto
  with mem have "length (takeWhile (\<lambda>x. x \<noteq> CHR ''.'') (drop pos domain))
      < length (drop pos domain)"
    by blast
  with p have "p < length domain"
    by simp
  with p show "((m, domain, Suc p), (m, domain, pos))
      \<in> measure (\<lambda>(m, domain, pos). length domain - pos)"
    by simp
qed

declare wildcard_loop.simps [simp del]

definition lookupDomain :: "BlocklistManager \<Rightarrow> string \<Rightarrow> (bool \<times> string) option" where
  "lookupDomain m domain =
     (case blocklist m domain of
        Some e \<Rightarrow> deref m e
      | None \<Rightarrow> wildcard_loop m domain 0)"

subsection \<open>Change detection\<close>

text \<open>
  \<open>isFileStable\<close>: a \<open>stat\<close>, the \<open>usleep\<close> (one instant), a second
  \<open>stat\<close>. The result comes with the instant at which the function returns.
\<close>

definition isFileStable :: "world \<Rightarrow> nat \<Rightarrow> BlocklistManager \<Rightarrow> bool \<times> nat" where
  "isFileStable w t m =
     (case stat_call w t (blocklistPath m) of
        None \<Rightarrow> (False, t + 1)
      | Some stat1 \<Rightarrow>
          (case stat_call w (t + 2) (blocklistPath m) of
             None \<Rightarrow> (False, t + 3)
           | Some stat2 \<Rightarrow>
               (st_size stat1 = st_size stat2 \<and>
                tv_sec (st_mtim stat1) = tv_sec (st_mtim stat2) \<and>
                tv_nsec (st_mtim stat1) = tv_nsec (st_mtim stat2), t + 3)))"

definition shouldReload :: "world \<Rightarrow> nat \<Rightarrow> BlocklistManager \<Rightarrow> bool \<times> nat" where
  "shouldReload w t m =
     (case stat_call w t (blocklistPath m) of
        None \<Rightarrow> (False, t + 1)
      | Some fileStat \<Rightarrow>
          (let changed =
                 (tv_sec (st_mtim fileStat) \<noteq> tv_sec (modTime (lastFileInfo m)) \<or>
                  tv_nsec (st_mtim fileStat) \<noteq> tv_nsec (modTime (lastFileInfo m)) \<or>
                  st_size fileStat \<noteq> fileSize (lastFileInfo m))
           in if \<not> changed then (False, t + 1)
              else (case isFileStable w (t + 1) m of
                      (fileStable, t') \<Rightarrow> if \<not> fileStable then (False, t') else (True, t'))))"

subsection \<open>Parsing the rule file\<close>

text \<open>
  \<open>std::getline\<close> until it fails: the pieces of the content between \<open>\n\<close>; a
  last piece with no bytes is not a line.
\<close>

fun getlines_acc :: "string \<Rightarrow> string \<Rightarrow> string list" where
  "getlines_acc cur [] = (if cur = [] then [] else [rev cur])"
| "getlines_acc cur (c # cs) =
     (if c = CHR 0x0A then rev cur # getlines_acc [] cs else getlines_acc (c # cur) cs)"

definition getlines :: "string \<Rightarrow> string list" where
  "getlines content = getlines_acc [] content"

text \<open>\<open>line.erase(line.find_last_not_of(" \t\r\n") + 1)\<close>.\<close>

definition erase_trailing :: "string \<Rightarrow> string" where
  "erase_trailing line = rev (dropWhile trailing_ws (rev line))"

text \<open>
  \<open>iss >> token\<close>: skip white space, then take the bytes up to the next white space.
  It fails (\<open>None\<close>) when nothing is left to take. The second component is the rest
  of the stream.
\<close>

definition extract_token :: "string \<Rightarrow> (string \<times> string) option" where
  "extract_token s =
     (let s' = dropWhile isspace s
      in if s' = [] then None
         else Some (takeWhile (\<lambda>c. \<not> isspace c) s', dropWhile (\<lambda>c. \<not> isspace c) s'))"

text \<open>\<open>iss >> address >> domain\<close>.\<close>

definition extract_two :: "string \<Rightarrow> (string \<times> string) option" where
  "extract_two s =
     (case extract_token s of
        None \<Rightarrow> None
      | Some (address, rest) \<Rightarrow>
          (case extract_token rest of
             None \<Rightarrow> None
           | Some (domain, _) \<Rightarrow> Some (address, domain)))"

text \<open>The body of the \<open>while (std::getline(file, line))\<close> loop.\<close>

definition process_line :: "BlocklistManager \<Rightarrow> string \<Rightarrow> BlocklistManager" where
  "process_line m line =
     (if line = [] \<or> hd line = CHR ''#'' then m
      else (case extract_two (erase_trailing line) of
              Some (address, domain) \<Rightarrow>
                (let domain' = map tolower domain;
                     (h, m') = getOrCreateAddress m address
                 in m'\<lparr>blocklist := (blocklist m')(domain' \<mapsto> \<lparr>targetAddress = h\<rparr>)\<rparr>)
            | None \<Rightarrow> m))"

fun load_lines :: "BlocklistManager \<Rightarrow> string list \<Rightarrow> BlocklistManager" where
  "load_lines m [] = m"
| "load_lines m (line # rest) = load_lines (process_line m line) rest"

text \<open>
  \<open>loadBlocklist\<close>. Clearing both tables drops every shared pointer, so every
  shared string is freed.
\<close>

definition loadBlocklist :: "world \<Rightarrow> nat \<Rightarrow> BlocklistManager \<Rightarrow> nat \<times> BlocklistManager" where
  "loadBlocklist w t m =
     (case stat_call w t (blocklistPath m) of
        None \<Rightarrow> (t + 1, m)
      | Some fileStat \<Rightarrow>
          (case open_call w (t + 1) (blocklistPath m) of
             None \<Rightarrow> (t + 2, m)
           | Some content \<Rightarrow>
               (t + 2,
                load_lines
                  (m\<lparr>lastFileInfo := \<lparr>modTime = st_mtim fileStat, fileSize = st_size fileStat\<rparr>,
                     blocklist := Map.empty,
                     addressPool := Map.empty,
                     heap := Map.empty\<rparr>)
                  (getlines content))))"

subsection \<open>The public operations\<close>

text \<open>The constructor: the fields' initial values, then \<open>loadBlocklist\<close>.\<close>

definition initial_manager :: "string \<Rightarrow> BlocklistManager" where
  "initial_manager path =
     \<lparr>blocklist = Map.empty, addressPool = Map.empty, blocklistPath = path,
      lastFileInfo = \<lparr>modTime = \<lparr>tv_sec = 0, tv_nsec = 0\<rparr>, fileSize = 0\<rparr>,
      heap = Map.empty, nextHandle = 0\<rparr>"

definition new_BlocklistManager :: "world \<Rightarrow> nat \<Rightarrow> string \<Rightarrow> nat \<times> BlocklistManager" where
  "new_BlocklistManager w t path = loadBlocklist w t (initial_manager path)"

text \<open>
  \<open>checkDomain\<close>, the module's \<open>resolve\<close>: the answer, the instant of return and the
  manager afterwards.
\<close>

definition checkDomain ::
  "world \<Rightarrow> nat \<Rightarrow> BlocklistManager \<Rightarrow> string
     \<Rightarrow> (bool \<times> string) option \<times> nat \<times> BlocklistManager" where
  "checkDomain w t m domain =
     (let normalizedDomain = map tolower domain
      in (case shouldReload w t m of
            (r1, t1) \<Rightarrow>
              if \<not> r1 then (lookupDomain m normalizedDomain, t1, m)
              else (case shouldReload w t1 m of
                      (r2, t2) \<Rightarrow>
                        (case (if r2 then loadBlocklist w t2 m else (t2, m)) of
                           (t3, m') \<Rightarrow> (lookupDomain m' normalizedDomain, t3, m')))))"

definition forceReload :: "world \<Rightarrow> nat \<Rightarrow> BlocklistManager \<Rightarrow> nat \<times> BlocklistManager" where
  "forceReload w t m = loadBlocklist w t m"

text \<open>\<open>getStats\<close>: the sizes of the two tables.\<close>

definition getStats :: "BlocklistManager \<Rightarrow> nat \<times> nat" where
  "getStats m = (card (dom (blocklist m)), card (dom (addressPool m)))"

subsection \<open>Notions used to state the properties\<close>

text \<open>The index as a caller sees it: a key and the address string its pointer leads to.\<close>

definition index_view :: "BlocklistManager \<Rightarrow> (string \<rightharpoonup> string)" where
  "index_view m k =
     (case blocklist m k of None \<Rightarrow> None | Some e \<Rightarrow> heap m (targetAddress e))"

text \<open>
  The manager is well formed: every entry of the index points to a live string that the
  pool holds under that very pointer, the pool maps each string to a cell holding it, and
  the cells in use lie below the next one to be allocated.
\<close>

definition mgr_inv :: "BlocklistManager \<Rightarrow> bool" where
  "mgr_inv m \<longleftrightarrow>
     (\<forall>k e. blocklist m k = Some e \<longrightarrow>
        (\<exists>a. heap m (targetAddress e) = Some a \<and> addressPool m a = Some (targetAddress e))) \<and>
     (\<forall>a h. addressPool m a = Some h \<longrightarrow> heap m h = Some a) \<and>
     (\<forall>h a. heap m h = Some a \<longrightarrow> h < nextHandle m)"

text \<open>
  The matching rule in the words of the specification: the positions of the separator in
  the domain, left to right; the candidate \<open>domain[i:]\<close> for each; the exact key first,
  then the first candidate that the index has.
\<close>

definition separator_positions :: "string \<Rightarrow> nat list" where
  "separator_positions d = filter (\<lambda>i. d ! i = CHR ''.'') [0..<length d]"

definition wildcard_candidates :: "string \<Rightarrow> string list" where
  "wildcard_candidates d = map (\<lambda>i. drop i d) (separator_positions d)"

definition spec_lookup :: "(string \<rightharpoonup> string) \<Rightarrow> string \<Rightarrow> bool \<times> string" where
  "spec_lookup idx d =
     (case idx d of
        Some a \<Rightarrow> (True, a)
      | None \<Rightarrow>
          (case List.map_filter idx (wildcard_candidates d) of
             [] \<Rightarrow> (False, '''')
           | a # _ \<Rightarrow> (True, a)))"

text \<open>The candidates from position \<open>pos\<close> on, for the loop's invariant.\<close>

definition candidates_from :: "string \<Rightarrow> nat \<Rightarrow> string list" where
  "candidates_from d pos =
     map (\<lambda>i. drop i d) (filter (\<lambda>i. d ! i = CHR ''.'') [pos..<length d])"

text \<open>
  The white-space-separated fields of a line, in the words of the specification: maximal
  runs of bytes that are not white space.
\<close>

fun fields_acc :: "string \<Rightarrow> string \<Rightarrow> string list" where
  "fields_acc cur [] = (if cur = [] then [] else [rev cur])"
| "fields_acc cur (c # cs) =
     (if isspace c then (if cur = [] then fields_acc [] cs else rev cur # fields_acc [] cs)
      else fields_acc (c # cur) cs)"

definition line_fields :: "string \<Rightarrow> string list" where
  "line_fields s = fields_acc [] s"

text \<open>
  The rule a line of the file contributes, if the loop body accepts it: the key (the
  lowercased domain) and the address.
\<close>

definition accepted_rule :: "string \<Rightarrow> (string \<times> string) option" where
  "accepted_rule line =
     (if line = [] \<or> hd line = CHR ''#'' then None
      else (case extract_two (erase_trailing line) of
              None \<Rightarrow> None
            | Some (address, domain) \<Rightarrow> Some (map tolower domain, address)))"

text \<open>The manager as \<open>loadBlocklist\<close> has it when it starts to read lines.\<close>

definition cleared :: "BlocklistManager \<Rightarrow> stat \<Rightarrow> BlocklistManager" where
  "cleared m fileStat =
     m\<lparr>lastFileInfo := \<lparr>modTime = st_mtim fileStat, fileSize = st_size fileStat\<rparr>,
       blocklist := Map.empty, addressPool := Map.empty, heap := Map.empty\<rparr>"

text \<open>Storing one rule: \<open>blocklist[domain] = {getOrCreateAddress(address)}\<close>.\<close>

definition store_rule :: "BlocklistManager \<Rightarrow> string \<Rightarrow> string \<Rightarrow> BlocklistManager" where
  "store_rule m k a =
     (case getOrCreateAddress m a of
        (h, m') \<Rightarrow> m'\<lparr>blocklist := (blocklist m')(k \<mapsto> \<lparr>targetAddress = h\<rparr>)\<rparr>)"

definition accepted_rules :: "string list \<Rightarrow> (string \<times> string) list" where
  "accepted_rules ls = List.map_filter accepted_rule ls"

text \<open>
  A file system for examples: the rule file at the default path never changes, and every
  other path is missing; and the manager constructed on it at instant 0.
\<close>

definition steady_world :: "string \<Rightarrow> world" where
  "steady_world content =
     (\<lambda>t path.
        if path = ''/data/etc/hosts''
        then Present \<lparr>st_mtim = \<lparr>tv_sec = 1700000000, tv_nsec = 5\<rparr>,
                      st_size = int (length content)\<rparr> (Some content)
        else Missing)"

definition constructed :: "string \<Rightarrow> BlocklistManager" where
  "constructed content = snd (new_BlocklistManager (steady_world content) 0 ''/data/etc/hosts'')"

text \<open>A file system in which the rule file is being written: it grows at every instant.\<close>

definition growing_world :: world where
  "growing_world =
     (\<lambda>t path. Present \<lparr>st_mtim = \<lparr>tv_sec = 1700000000, tv_nsec = int t\<rparr>, st_size = int t\<rparr>
                  (Some (replicate t (CHR ''#''))))"

text \<open>A file system in which the rule file never exists.\<close>

definition missing_world :: world where
  "missing_world = (\<lambda>t path. Missing)"

section \<open>Auxiliary facts\<close>

subsection \<open>Searching the domain and the wildcard loop\<close>

lemma find_from_None: "find_from s c pos = None \<longleftrightarrow> c \<notin> set (drop pos s)"
  by (simp add: find_from_def)

lemma takeWhile_neq_less: "c \<in> set xs \<Longrightarrow> length (takeWhile (\<lambda>x. x \<noteq> c) xs) < length xs"
  by (induction xs) auto

lemma find_from_Some:
  assumes "find_from s c pos = Some p"
  shows "pos \<le> p" and "p < length s" and "s ! p = c"
    and "\<And>i. pos \<le> i \<Longrightarrow> i < p \<Longrightarrow> s ! i \<noteq> c"
proof -
  let ?n = "length (takeWhile (\<lambda>x. x \<noteq> c) (drop pos s))"
  from assms have mem: "c \<in> set (drop pos s)" and p: "p = pos + ?n"
    by (auto simp: find_from_def split: if_splits)
  from mem have lt: "?n < length (drop pos s)"
    by (rule takeWhile_neq_less)
  show "pos \<le> p" using p by simp
  show pl: "p < length s" using p lt by simp
  from nth_length_takeWhile [OF lt] have "drop pos s ! ?n = c" by simp
  then show "s ! p = c" using p pl by (simp add: add.commute)
  fix i assume i: "pos \<le> i" "i < p"
  then have "i - pos < ?n" using p by simp
  then have "takeWhile (\<lambda>x. x \<noteq> c) (drop pos s) ! (i - pos)
      \<in> set (takeWhile (\<lambda>x. x \<noteq> c) (drop pos s))"
    by (rule nth_mem)
  then have "takeWhile (\<lambda>x. x \<noteq> c) (drop pos s) ! (i - pos) \<noteq> c"
    by (rule set_takeWhileD [THEN conjunct2])
  moreover have "takeWhile (\<lambda>x. x \<noteq> c) (drop pos s) ! (i - pos) = drop pos s ! (i - pos)"
    using \<open>i - pos < ?n\<close> by (rule takeWhile_nth)
  ultimately show "s ! i \<noteq> c" using i pl p by simp
qed

lemma filter_upt_first:
  assumes "pos \<le> p" "p < n" "P p" "\<And>i. pos \<le> i \<Longrightarrow> i < p \<Longrightarrow> \<not> P i"
  shows "filter P [pos..<n] = p # filter P [Suc p..<n]"
proof -
  have "[pos..<n] = [pos..<p] @ [p..<n]"
    using assms(1,2) upt_add_eq_append [of pos p "n - p"] by simp
  also have "[p..<n] = p # [Suc p..<n]"
    using assms(2) by (simp add: upt_conv_Cons)
  finally have "[pos..<n] = [pos..<p] @ p # [Suc p..<n]" .
  moreover have "filter P [pos..<p] = []"
    using assms(4) by (simp add: filter_empty_conv)
  ultimately show ?thesis using assms(3) by simp
qed

lemma filter_upt_none:
  assumes "c \<notin> set (drop pos s)"
  shows "filter (\<lambda>i. s ! i = c) [pos..<length s] = []"
proof -
  have "s ! i \<noteq> c" if "pos \<le> i" "i < length s" for i
  proof -
    have "s ! i = drop pos s ! (i - pos)" using that by simp
    moreover have "drop pos s ! (i - pos) \<in> set (drop pos s)"
      using that by (intro nth_mem) simp
    ultimately show ?thesis using assms by auto
  qed
  then show ?thesis by (auto simp: filter_empty_conv)
qed

lemma mgr_inv_entry:
  "mgr_inv m \<Longrightarrow> blocklist m k = Some e \<Longrightarrow>
   \<exists>a. heap m (targetAddress e) = Some a \<and> addressPool m a = Some (targetAddress e)"
  unfolding mgr_inv_def by blast

lemma index_view_None: "mgr_inv m \<Longrightarrow> index_view m k = None \<longleftrightarrow> blocklist m k = None"
proof (cases "blocklist m k")
  case None
  then show ?thesis by (simp add: index_view_def)
next
  case (Some e)
  assume "mgr_inv m"
  from mgr_inv_entry [OF this Some] Some show ?thesis
    by (auto simp: index_view_def)
qed

lemma deref_index_view:
  assumes "blocklist m k = Some e" and "mgr_inv m"
  shows "\<exists>a. index_view m k = Some a \<and> deref m e = Some (True, a)"
proof -
  from mgr_inv_entry [OF assms(2,1)] obtain a where "heap m (targetAddress e) = Some a"
    by blast
  with assms(1) show ?thesis
    by (simp add: index_view_def deref_def)
qed

lemma wildcard_loop_spec:
  "mgr_inv m \<Longrightarrow>
   wildcard_loop m d pos =
     Some (case List.map_filter (index_view m) (candidates_from d pos) of
             [] \<Rightarrow> (False, '''') | a # _ \<Rightarrow> (True, a))"
proof (induction m d pos rule: wildcard_loop.induct)
  case (1 m domain pos)
  show ?case
  proof (cases "find_from domain (CHR ''.'') pos")
    case None
    then have "candidates_from domain pos = []"
      by (simp add: candidates_from_def find_from_None filter_upt_none)
    with None show ?thesis
      by (simp add: wildcard_loop.simps [of m domain pos] List.map_filter_simps)
  next
    case (Some p)
    note fs = find_from_Some [OF Some]
    have cf: "candidates_from domain pos = drop p domain # candidates_from domain (Suc p)"
      unfolding candidates_from_def
      using filter_upt_first [of pos p "length domain" "\<lambda>i. domain ! i = CHR ''.''"] fs
      by simp
    show ?thesis
    proof (cases "blocklist m (drop p domain)")
      case None
      then have "index_view m (drop p domain) = None"
        by (simp add: index_view_def)
      with 1 Some None cf show ?thesis
        by (simp add: wildcard_loop.simps [of m domain pos] List.map_filter_simps)
    next
      case (Some e)
      from deref_index_view [OF Some \<open>mgr_inv m\<close>] obtain a where
        "index_view m (drop p domain) = Some a" "deref m e = Some (True, a)" by blast
      with \<open>find_from domain (CHR ''.'') pos = Some p\<close> Some cf show ?thesis
        by (simp add: wildcard_loop.simps [of m domain pos] List.map_filter_simps)
    qed
  qed
qed

lemma lookupDomain_spec:
  "mgr_inv m \<Longrightarrow> lookupDomain m d = Some (spec_lookup (index_view m) d)"
proof -
  assume inv: "mgr_inv m"
  have c: "candidates_from d 0 = wildcard_candidates d"
    by (simp add: candidates_from_def wildcard_candidates_def separator_positions_def)
  show ?thesis
  proof (cases "blocklist m d")
    case None
    then have "index_view m d = None" by (simp add: index_view_def)
    with None show ?thesis
      by (simp add: lookupDomain_def spec_lookup_def wildcard_loop_spec [OF inv] c)
  next
    case (Some e)
    from deref_index_view [OF Some inv] Some show ?thesis
      by (auto simp: lookupDomain_def spec_lookup_def)
  qed
qed

subsection \<open>Storing a rule keeps the manager well formed\<close>

lemma process_line_rule:
  "process_line m line = (case accepted_rule line of None \<Rightarrow> m | Some (k, a) \<Rightarrow> store_rule m k a)"
  by (simp add: process_line_def accepted_rule_def store_rule_def Let_def split: option.splits prod.splits)

lemma mgr_inv_pool: "mgr_inv m \<Longrightarrow> addressPool m a = Some h \<Longrightarrow> heap m h = Some a"
  unfolding mgr_inv_def by blast

lemma mgr_inv_fresh: "mgr_inv m \<Longrightarrow> heap m (nextHandle m) = None"
proof (rule ccontr)
  assume inv: "mgr_inv m" and "heap m (nextHandle m) \<noteq> None"
  then obtain a where "heap m (nextHandle m) = Some a" by blast
  with inv have "nextHandle m < nextHandle m" unfolding mgr_inv_def by blast
  then show False by simp
qed

lemma mgr_inv_bound: "mgr_inv m \<Longrightarrow> heap m h = Some a \<Longrightarrow> h < nextHandle m"
  unfolding mgr_inv_def by blast

lemma mgr_invI:
  assumes "\<And>k e. blocklist m k = Some e \<Longrightarrow>
        \<exists>a. heap m (targetAddress e) = Some a \<and> addressPool m a = Some (targetAddress e)"
    and "\<And>a h. addressPool m a = Some h \<Longrightarrow> heap m h = Some a"
    and "\<And>h a. heap m h = Some a \<Longrightarrow> h < nextHandle m"
  shows "mgr_inv m"
  unfolding mgr_inv_def using assms by blast

lemma store_rule_hit:
  "addressPool m a = Some h \<Longrightarrow>
   store_rule m k a = m\<lparr>blocklist := (blocklist m)(k \<mapsto> \<lparr>targetAddress = h\<rparr>)\<rparr>"
  by (simp add: store_rule_def getOrCreateAddress_def)

lemma store_rule_miss:
  "addressPool m a = None \<Longrightarrow>
   store_rule m k a =
     m\<lparr>heap := (heap m)(nextHandle m \<mapsto> a), nextHandle := Suc (nextHandle m),
       addressPool := (addressPool m)(a \<mapsto> nextHandle m),
       blocklist := (blocklist m)(k \<mapsto> \<lparr>targetAddress = nextHandle m\<rparr>)\<rparr>"
  by (simp add: store_rule_def getOrCreateAddress_def Let_def)

lemma mgr_inv_store_rule:
  assumes inv: "mgr_inv m"
  shows "mgr_inv (store_rule m k a)"
proof (cases "addressPool m a")
  case (Some h)
  show ?thesis
  proof (rule mgr_invI)
    fix k' e assume "blocklist (store_rule m k a) k' = Some e"
    then have "e = \<lparr>targetAddress = h\<rparr> \<or> blocklist m k' = Some e"
      by (auto simp: store_rule_hit [OF Some] split: if_splits)
    then show "\<exists>a'. heap (store_rule m k a) (targetAddress e) = Some a' \<and>
        addressPool (store_rule m k a) a' = Some (targetAddress e)"
    proof
      assume "e = \<lparr>targetAddress = h\<rparr>"
      then show ?thesis
        using Some mgr_inv_pool [OF inv Some] by (auto simp: store_rule_hit [OF Some])
    next
      assume "blocklist m k' = Some e"
      from mgr_inv_entry [OF inv this] show ?thesis
        by (simp add: store_rule_hit [OF Some])
    qed
  next
    fix a' h' assume "addressPool (store_rule m k a) a' = Some h'"
    then show "heap (store_rule m k a) h' = Some a'"
      using mgr_inv_pool [OF inv] by (simp add: store_rule_hit [OF Some])
  next
    fix h' a' assume "heap (store_rule m k a) h' = Some a'"
    then show "h' < nextHandle (store_rule m k a)"
      using mgr_inv_bound [OF inv] by (simp add: store_rule_hit [OF Some])
  qed
next
  case None
  note fresh = mgr_inv_fresh [OF inv]
  show ?thesis
  proof (rule mgr_invI)
    fix k' e assume "blocklist (store_rule m k a) k' = Some e"
    then have "e = \<lparr>targetAddress = nextHandle m\<rparr> \<or> blocklist m k' = Some e"
      by (auto simp: store_rule_miss [OF None] split: if_splits)
    then show "\<exists>a'. heap (store_rule m k a) (targetAddress e) = Some a' \<and>
        addressPool (store_rule m k a) a' = Some (targetAddress e)"
    proof
      assume "e = \<lparr>targetAddress = nextHandle m\<rparr>"
      then show ?thesis
        by (simp add: store_rule_miss [OF None])
    next
      assume old: "blocklist m k' = Some e"
      from mgr_inv_entry [OF inv old] obtain a' where
        a': "heap m (targetAddress e) = Some a'" "addressPool m a' = Some (targetAddress e)"
        by blast
      from a'(1) fresh have "targetAddress e \<noteq> nextHandle m" by auto
      moreover from a'(2) None have "a' \<noteq> a" by auto
      ultimately show ?thesis
        using a' by (simp add: store_rule_miss [OF None])
    qed
  next
    fix a' h' assume "addressPool (store_rule m k a) a' = Some h'"
    then have "(a' = a \<and> h' = nextHandle m) \<or> (a' \<noteq> a \<and> addressPool m a' = Some h')"
      by (auto simp: store_rule_miss [OF None] split: if_splits)
    then show "heap (store_rule m k a) h' = Some a'"
    proof
      assume "a' = a \<and> h' = nextHandle m"
      then show ?thesis by (simp add: store_rule_miss [OF None])
    next
      assume "a' \<noteq> a \<and> addressPool m a' = Some h'"
      then have h: "heap m h' = Some a'" using mgr_inv_pool [OF inv] by blast
      with fresh have "h' \<noteq> nextHandle m" by auto
      with h show ?thesis by (simp add: store_rule_miss [OF None])
    qed
  next
    fix h' a' assume "heap (store_rule m k a) h' = Some a'"
    then have "h' = nextHandle m \<or> heap m h' = Some a'"
      by (auto simp: store_rule_miss [OF None] split: if_splits)
    then show "h' < nextHandle (store_rule m k a)"
      using mgr_inv_bound [OF inv, of h' a'] by (auto simp: store_rule_miss [OF None])
  qed
qed

lemma index_view_store_rule:
  assumes inv: "mgr_inv m"
  shows "index_view (store_rule m k a) = (index_view m)(k \<mapsto> a)"
proof (cases "addressPool m a")
  case (Some h)
  from mgr_inv_pool [OF inv Some] show ?thesis
    by (auto simp: store_rule_hit [OF Some] index_view_def fun_eq_iff split: option.splits)
next
  case None
  note fresh = mgr_inv_fresh [OF inv]
  show ?thesis
  proof (rule ext)
    fix k'
    show "index_view (store_rule m k a) k' = ((index_view m)(k \<mapsto> a)) k'"
    proof (cases "k' = k")
      case True
      then show ?thesis by (simp add: store_rule_miss [OF None] index_view_def)
    next
      case False
      show ?thesis
      proof (cases "blocklist m k'")
        case None
        with False show ?thesis
          by (simp add: store_rule_miss [OF \<open>addressPool m a = None\<close>] index_view_def)
      next
        case (Some e)
        from mgr_inv_entry [OF inv Some] fresh have "targetAddress e \<noteq> nextHandle m" by auto
        with False Some show ?thesis
          by (simp add: store_rule_miss [OF None] index_view_def)
      qed
    qed
  qed
qed

lemma pool_dom_store_rule: "dom (addressPool (store_rule m k a)) = insert a (dom (addressPool m))"
  by (cases "addressPool m a") (auto simp: store_rule_hit store_rule_miss)

lemma blocklist_dom_store_rule: "dom (blocklist (store_rule m k a)) = insert k (dom (blocklist m))"
  by (cases "addressPool m a") (auto simp: store_rule_hit store_rule_miss)

lemma pool_keeps_store_rule:
  "addressPool m a' = Some h \<Longrightarrow> addressPool (store_rule m k a) a' = Some h"
  by (cases "addressPool m a") (auto simp: store_rule_hit store_rule_miss)

lemma heap_keeps_store_rule:
  "mgr_inv m \<Longrightarrow> heap m h = Some s \<Longrightarrow> heap (store_rule m k a) h = Some s"
  using mgr_inv_fresh [of m]
  by (cases "addressPool m a") (auto simp: store_rule_hit store_rule_miss)

lemma fixed_store_rule:
  "blocklistPath (store_rule m k a) = blocklistPath m"
  "lastFileInfo (store_rule m k a) = lastFileInfo m"
  by (cases "addressPool m a"; simp add: store_rule_hit store_rule_miss)+

subsection \<open>Loading\<close>

lemma accepted_rules_Cons:
  "accepted_rules (l # ls) =
     (case accepted_rule l of None \<Rightarrow> accepted_rules ls | Some r \<Rightarrow> r # accepted_rules ls)"
  by (cases "accepted_rule l") (simp_all add: accepted_rules_def)

lemma accepted_rules_Nil: "accepted_rules [] = []"
  by (simp add: accepted_rules_def)

lemma accepted_rules_append: "accepted_rules (xs @ ys) = accepted_rules xs @ accepted_rules ys"
  by (simp add: accepted_rules_def List.map_filter_def)

lemma mgr_inv_process_line: "mgr_inv m \<Longrightarrow> mgr_inv (process_line m line)"
  by (simp add: process_line_rule mgr_inv_store_rule split: option.splits prod.splits)

lemma mgr_inv_load_lines: "mgr_inv m \<Longrightarrow> mgr_inv (load_lines m ls)"
  by (induction ls arbitrary: m) (simp_all add: mgr_inv_process_line)

lemma index_view_load_lines:
  "mgr_inv m \<Longrightarrow> index_view (load_lines m ls) = index_view m ++ map_of (rev (accepted_rules ls))"
proof (induction ls arbitrary: m)
  case Nil
  then show ?case by (simp add: accepted_rules_Nil)
next
  case (Cons l ls)
  show ?case
  proof (cases "accepted_rule l")
    case None
    with Cons show ?thesis
      by (simp add: process_line_rule accepted_rules_Cons)
  next
    case (Some r)
    obtain k a where r: "r = (k, a)" by (cases r)
    have inv': "mgr_inv (store_rule m k a)"
      using Cons.prems by (rule mgr_inv_store_rule)
    have "index_view (load_lines (store_rule m k a) ls) =
        (index_view m)(k \<mapsto> a) ++ map_of (rev (accepted_rules ls))"
      using Cons.IH [OF inv'] by (simp only: index_view_store_rule [OF Cons.prems])
    also have "\<dots> = index_view m ++ map_of (rev (accepted_rules ls) @ [(k, a)])"
      by (simp add: fun_eq_iff map_add_def split: option.splits)
    finally show ?thesis
      using Some r by (simp add: process_line_rule accepted_rules_Cons)
  qed
qed

lemma pool_dom_load_lines:
  "dom (addressPool (load_lines m ls)) = dom (addressPool m) \<union> snd ` set (accepted_rules ls)"
proof (induction ls arbitrary: m)
  case Nil
  then show ?case by (simp add: accepted_rules_Nil)
next
  case (Cons l ls)
  show ?case
  proof (cases "accepted_rule l")
    case None
    then show ?thesis
      by (simp add: process_line_rule accepted_rules_Cons Cons.IH)
  next
    case (Some r)
    obtain k a where "r = (k, a)" by (cases r)
    with Some show ?thesis
      by (simp add: process_line_rule accepted_rules_Cons Cons.IH pool_dom_store_rule)
  qed
qed

lemma blocklist_dom_load_lines:
  "dom (blocklist (load_lines m ls)) = dom (blocklist m) \<union> fst ` set (accepted_rules ls)"
proof (induction ls arbitrary: m)
  case Nil
  then show ?case by (simp add: accepted_rules_Nil)
next
  case (Cons l ls)
  show ?case
  proof (cases "accepted_rule l")
    case None
    then show ?thesis
      by (simp add: process_line_rule accepted_rules_Cons Cons.IH)
  next
    case (Some r)
    obtain k a where "r = (k, a)" by (cases r)
    with Some show ?thesis
      by (simp add: process_line_rule accepted_rules_Cons Cons.IH blocklist_dom_store_rule)
  qed
qed

lemma pool_keeps_process_line:
  "addressPool m a = Some h \<Longrightarrow> addressPool (process_line m line) a = Some h"
  by (simp add: process_line_rule pool_keeps_store_rule split: option.splits prod.splits)

lemma pool_keeps_load_lines:
  "addressPool m a = Some h \<Longrightarrow> addressPool (load_lines m ls) a = Some h"
  by (induction ls arbitrary: m) (simp_all add: pool_keeps_process_line)

lemma fixed_load_lines:
  "blocklistPath (load_lines m ls) = blocklistPath m \<and> lastFileInfo (load_lines m ls) = lastFileInfo m"
  by (induction ls arbitrary: m)
    (simp_all add: process_line_rule fixed_store_rule split: option.splits prod.splits)

lemma load_lines_append: "load_lines m (xs @ ys) = load_lines (load_lines m xs) ys"
  by (induction xs arbitrary: m) simp_all

lemma mgr_inv_cleared: "mgr_inv (cleared m fileStat)"
  by (simp add: mgr_inv_def cleared_def)

lemma index_view_cleared: "index_view (cleared m fileStat) = Map.empty"
  by (simp add: index_view_def cleared_def fun_eq_iff)

lemma loadBlocklist_success:
  "stat_call w t (blocklistPath m) = Some fileStat \<Longrightarrow>
   open_call w (t + 1) (blocklistPath m) = Some content \<Longrightarrow>
   loadBlocklist w t m = (t + 2, load_lines (cleared m fileStat) (getlines content))"
  by (simp add: loadBlocklist_def cleared_def)

lemma loadBlocklist_failure:
  "stat_call w t (blocklistPath m) = None \<or> open_call w (t + 1) (blocklistPath m) = None \<Longrightarrow>
   snd (loadBlocklist w t m) = m"
  by (auto simp: loadBlocklist_def split: option.splits)

lemma loadBlocklist_cases:
  obtains "snd (loadBlocklist w t m) = m"
    "stat_call w t (blocklistPath m) = None \<or> open_call w (t + 1) (blocklistPath m) = None"
  | fileStat content where "stat_call w t (blocklistPath m) = Some fileStat"
    "open_call w (t + 1) (blocklistPath m) = Some content"
    "snd (loadBlocklist w t m) = load_lines (cleared m fileStat) (getlines content)"
proof (cases "stat_call w t (blocklistPath m)")
  case None
  then show ?thesis using that(1) loadBlocklist_failure [of w t m] by simp
next
  case (Some fileStat)
  show ?thesis
  proof (cases "open_call w (t + 1) (blocklistPath m)")
    case None
    then show ?thesis using that(1) loadBlocklist_failure [of w t m] by simp
  next
    case (Some content)
    with \<open>stat_call w t (blocklistPath m) = Some fileStat\<close> show ?thesis
      using that(2) loadBlocklist_success [of w t m fileStat content] by simp
  qed
qed

lemma mgr_inv_loadBlocklist: "mgr_inv m \<Longrightarrow> mgr_inv (snd (loadBlocklist w t m))"
  by (cases rule: loadBlocklist_cases [of w t m]) (simp_all add: mgr_inv_load_lines mgr_inv_cleared)

lemma mgr_inv_initial: "mgr_inv (initial_manager path)"
  by (simp add: mgr_inv_def initial_manager_def)

lemma mgr_inv_new: "mgr_inv (snd (new_BlocklistManager w t path))"
  unfolding new_BlocklistManager_def
  by (rule mgr_inv_loadBlocklist) (rule mgr_inv_initial)

lemma checkDomain_cases:
  obtains t' where "checkDomain w t m d = (lookupDomain m (map tolower d), t', m)"
  | t2 t' where "checkDomain w t m d =
      (lookupDomain (snd (loadBlocklist w t2 m)) (map tolower d), t', snd (loadBlocklist w t2 m))"
proof -
  obtain r1 t1 where s1: "shouldReload w t m = (r1, t1)" by (cases "shouldReload w t m")
  obtain r2 t2 where s2: "shouldReload w t1 m = (r2, t2)" by (cases "shouldReload w t1 m")
  obtain t3 m' where l: "loadBlocklist w t2 m = (t3, m')" by (cases "loadBlocklist w t2 m")
  show ?thesis
  proof (cases "r1 \<and> r2")
    case True
    with s1 s2 l have "checkDomain w t m d =
        (lookupDomain (snd (loadBlocklist w t2 m)) (map tolower d), t3, snd (loadBlocklist w t2 m))"
      by (simp add: checkDomain_def)
    then show ?thesis by (rule that(2))
  next
    case False
    with s1 s2 have "checkDomain w t m d = (lookupDomain m (map tolower d), if r1 then t2 else t1, m)"
      by (auto simp: checkDomain_def)
    then show ?thesis by (rule that(1))
  qed
qed

lemma checkDomain_lookup:
  "checkDomain w t m d = (r, t', m') \<Longrightarrow> r = lookupDomain m' (map tolower d)"
  by (cases rule: checkDomain_cases [of w t m d]) auto

lemma mgr_inv_checkDomain:
  "mgr_inv m \<Longrightarrow> checkDomain w t m d = (r, t', m') \<Longrightarrow> mgr_inv m'"
  by (cases rule: checkDomain_cases [of w t m d]) (auto simp: mgr_inv_loadBlocklist)

subsection \<open>Tokens and letters\<close>

lemma fields_acc_skip: "fields_acc [] s = fields_acc [] (dropWhile isspace s)"
  by (induction s) simp_all

lemma fields_acc_token:
  "cur \<noteq> [] \<or> (s \<noteq> [] \<and> \<not> isspace (hd s)) \<Longrightarrow>
   fields_acc cur s =
     (rev cur @ takeWhile (\<lambda>c. \<not> isspace c) s) # fields_acc [] (dropWhile (\<lambda>c. \<not> isspace c) s)"
proof (induction s arbitrary: cur)
  case Nil
  then show ?case by simp
next
  case (Cons c cs)
  show ?case
  proof (cases "isspace c")
    case True
    with Cons.prems show ?thesis by simp
  next
    case False
    then show ?thesis using Cons.IH [of "c # cur"] by simp
  qed
qed

lemma fields_extract_token:
  "line_fields s = (case extract_token s of None \<Rightarrow> [] | Some (tok, rest) \<Rightarrow> tok # line_fields rest)"
proof (cases "dropWhile isspace s = []")
  case True
  have "line_fields s = fields_acc [] (dropWhile isspace s)"
    unfolding line_fields_def by (rule fields_acc_skip)
  also have "\<dots> = []"
    unfolding True by simp
  finally have "line_fields s = []" .
  moreover have "extract_token s = None"
    using True by (simp add: extract_token_def)
  ultimately show ?thesis by simp
next
  case False
  then have "\<not> isspace (hd (dropWhile isspace s))"
    by (rule hd_dropWhile)
  with False have "fields_acc [] (dropWhile isspace s) =
      takeWhile (\<lambda>c. \<not> isspace c) (dropWhile isspace s)
        # fields_acc [] (dropWhile (\<lambda>c. \<not> isspace c) (dropWhile isspace s))"
    using fields_acc_token [of "[]" "dropWhile isspace s"] by simp
  moreover have "line_fields s = fields_acc [] (dropWhile isspace s)"
    unfolding line_fields_def by (rule fields_acc_skip)
  ultimately have "line_fields s = takeWhile (\<lambda>c. \<not> isspace c) (dropWhile isspace s)
        # line_fields (dropWhile (\<lambda>c. \<not> isspace c) (dropWhile isspace s))"
    by (simp add: line_fields_def)
  with False show ?thesis by (simp add: extract_token_def Let_def)
qed

lemma extract_two_fields:
  "extract_two s = (case line_fields s of a # d # _ \<Rightarrow> Some (a, d) | _ \<Rightarrow> None)"
proof (cases "extract_token s")
  case None
  then show ?thesis
    by (simp add: extract_two_def fields_extract_token [of s])
next
  case (Some r)
  obtain address rest where r: "r = (address, rest)" by (cases r)
  show ?thesis
  proof (cases "extract_token rest")
    case None
    with Some r show ?thesis
      by (simp add: extract_two_def fields_extract_token [of s] fields_extract_token [of rest])
  next
    case (Some r')
    obtain domain rest' where "r' = (domain, rest')" by (cases r')
    with Some \<open>extract_token s = Some r\<close> r show ?thesis
      by (simp add: extract_two_def fields_extract_token [of s] fields_extract_token [of rest])
  qed
qed

lemma extract_two_None_iff: "extract_two s = None \<longleftrightarrow> length (line_fields s) < 2"
  by (simp add: extract_two_fields split: list.splits)

lemma tolower_idem: "tolower (tolower c) = tolower c"
proof (cases "65 \<le> (of_char c :: nat) \<and> (of_char c :: nat) \<le> 90")
  case True
  then have low: "tolower c = char_of (of_char c + 32 :: nat)"
    by (simp add: tolower_def Let_def)
  from True have "(of_char (char_of (of_char c + 32 :: nat)) :: nat) = of_char c + 32"
    by (simp add: of_char_of)
  with True have "\<not> (65 \<le> (of_char (char_of (of_char c + 32 :: nat)) :: nat) \<and>
      (of_char (char_of (of_char c + 32 :: nat)) :: nat) \<le> 90)"
    by simp
  then have "tolower (char_of (of_char c + 32 :: nat)) = char_of (of_char c + 32 :: nat)"
    unfolding tolower_def Let_def by (rule if_not_P)
  with low show ?thesis by simp
next
  case False
  then have "tolower c = c"
    unfolding tolower_def Let_def by (rule if_not_P)
  then show ?thesis by simp
qed

lemma map_tolower_idem: "map tolower (map tolower d) = map tolower d"
  by (simp add: tolower_idem)

subsection \<open>Lookup when no reload is due, and under a wildcard rule\<close>

lemma checkDomain_no_reload:
  "\<not> fst (shouldReload w t m) \<Longrightarrow>
   checkDomain w t m d = (lookupDomain m (map tolower d), snd (shouldReload w t m), m)"
  by (cases "shouldReload w t m") (simp add: checkDomain_def)

lemma candidates_split:
  "wildcard_candidates (l @ CHR ''.'' # p) =
     map (\<lambda>i. drop i (l @ CHR ''.'' # p)) (filter (\<lambda>i. l ! i = CHR ''.'') [0..<length l])
     @ (CHR ''.'' # p) # candidates_from (l @ CHR ''.'' # p) (Suc (length l))"
proof -
  let ?d = "l @ CHR ''.'' # p"
  have "[0..<length ?d] = [0..<length l] @ [length l..<length ?d]"
    using upt_add_eq_append [of 0 "length l" "Suc (length p)"] by simp
  moreover have "[length l..<length ?d] = length l # [Suc (length l)..<length ?d]"
    by (rule upt_conv_Cons) simp
  moreover have "filter (\<lambda>i. ?d ! i = CHR ''.'') [0..<length l] =
      filter (\<lambda>i. l ! i = CHR ''.'') [0..<length l]"
    by (rule filter_cong) (simp_all add: nth_append)
  ultimately have "separator_positions ?d =
      filter (\<lambda>i. l ! i = CHR ''.'') [0..<length l] @ length l #
      filter (\<lambda>i. ?d ! i = CHR ''.'') [Suc (length l)..<length ?d]"
    by (simp add: separator_positions_def)
  then show ?thesis
    by (simp add: wildcard_candidates_def candidates_from_def)
qed

lemma map_filter_absent: "(\<And>x. x \<in> set xs \<Longrightarrow> f x = None) \<Longrightarrow> List.map_filter f xs = []"
  by (induction xs) simp_all

lemma lookup_wildcard_rule:
  assumes inv: "mgr_inv m" and rule: "index_view m (CHR ''.'' # p) = Some addr"
  shows "\<exists>a. lookupDomain m (l @ CHR ''.'' # p) = Some (True, a)"
    and "(\<And>i. i < length l \<Longrightarrow> i = 0 \<or> l ! i = CHR ''.'' \<Longrightarrow>
            blocklist m (drop i (l @ CHR ''.'' # p)) = None) \<Longrightarrow>
         lookupDomain m (l @ CHR ''.'' # p) = Some (True, addr)"
proof -
  let ?d = "l @ CHR ''.'' # p"
  let ?A = "map (\<lambda>i. drop i ?d) (filter (\<lambda>i. l ! i = CHR ''.'') [0..<length l])"
  let ?B = "candidates_from ?d (Suc (length l))"
  have mf: "List.map_filter (index_view m) (wildcard_candidates ?d) =
      List.map_filter (index_view m) ?A @ addr # List.map_filter (index_view m) ?B"
    by (simp add: candidates_split List.map_filter_def rule)
  then have ne: "List.map_filter (index_view m) (wildcard_candidates ?d) \<noteq> []"
    by simp
  show "\<exists>a. lookupDomain m ?d = Some (True, a)"
  proof (cases "index_view m ?d")
    case None
    with ne show ?thesis
      by (cases "List.map_filter (index_view m) (wildcard_candidates ?d)")
        (simp_all add: lookupDomain_spec [OF inv] spec_lookup_def)
  next
    case (Some a)
    then show ?thesis
      by (simp add: lookupDomain_spec [OF inv] spec_lookup_def)
  qed
  assume absent: "\<And>i. i < length l \<Longrightarrow> i = 0 \<or> l ! i = CHR ''.'' \<Longrightarrow> blocklist m (drop i ?d) = None"
  show "lookupDomain m ?d = Some (True, addr)"
  proof (cases "l = []")
    case True
    with rule show ?thesis
      by (simp add: lookupDomain_spec [OF inv] spec_lookup_def)
  next
    case False
    with absent [of 0] have "blocklist m ?d = None" by simp
    then have none: "index_view m ?d = None"
      by (simp add: index_view_def)
    have "index_view m x = None" if "x \<in> set ?A" for x
    proof -
      from that obtain i where "i < length l" "l ! i = CHR ''.''" "x = drop i ?d"
        by auto
      with absent [of i] show ?thesis by (simp add: index_view_def)
    qed
    then have "List.map_filter (index_view m) ?A = []"
      by (rule map_filter_absent)
    with mf none show ?thesis
      by (simp add: lookupDomain_spec [OF inv] spec_lookup_def)
  qed
qed

lemma lookup_only_wildcard_rule:
  assumes inv: "mgr_inv m" and only: "\<And>k. blocklist m k \<noteq> None \<Longrightarrow> k = CHR ''.'' # p"
  shows "lookupDomain m p = Some (False, '''')"
proof -
  have short: "index_view m k = None" if "length k \<le> length p" for k
  proof -
    from that have "k \<noteq> CHR ''.'' # p" by auto
    with only [of k] have "blocklist m k = None" by blast
    then show ?thesis by (simp add: index_view_def)
  qed
  have "index_view m x = None" if "x \<in> set (wildcard_candidates p)" for x
  proof -
    from that obtain i where "x = drop i p"
      by (auto simp: wildcard_candidates_def)
    then show ?thesis by (simp add: short)
  qed
  then have "List.map_filter (index_view m) (wildcard_candidates p) = []"
    by (rule map_filter_absent)
  with short [of p] show ?thesis
    by (simp add: lookupDomain_spec [OF inv] spec_lookup_def)
qed

subsection \<open>The example managers\<close>

lemma constructed_load:
  "stat_call (steady_world content) t ''/data/etc/hosts'' =
     Some \<lparr>st_mtim = \<lparr>tv_sec = 1700000000, tv_nsec = 5\<rparr>, st_size = int (length content)\<rparr>"
  "open_call (steady_world content) t ''/data/etc/hosts'' = Some content"
  "blocklistPath (initial_manager path) = path"
  "constructed content = snd (loadBlocklist (steady_world content) 0 (initial_manager ''/data/etc/hosts''))"
  by (simp_all add: stat_call_def open_call_def steady_world_def initial_manager_def
      constructed_def new_BlocklistManager_def)

lemma constructed_eq:
  "constructed content =
     load_lines
       (cleared (initial_manager ''/data/etc/hosts'')
          \<lparr>st_mtim = \<lparr>tv_sec = 1700000000, tv_nsec = 5\<rparr>, st_size = int (length content)\<rparr>)
       (getlines content)"
proof -
  let ?m = "initial_manager ''/data/etc/hosts''"
  let ?s = "\<lparr>st_mtim = \<lparr>tv_sec = 1700000000, tv_nsec = 5\<rparr>, st_size = int (length content)\<rparr>"
  have "stat_call (steady_world content) 0 (blocklistPath ?m) = Some ?s"
    by (simp only: constructed_load)
  moreover have "open_call (steady_world content) (0 + 1) (blocklistPath ?m) = Some content"
    by (simp only: constructed_load)
  ultimately have "loadBlocklist (steady_world content) 0 ?m =
      (0 + 2, load_lines (cleared ?m ?s) (getlines content))"
    by (rule loadBlocklist_success)
  then show ?thesis
    by (simp add: constructed_def new_BlocklistManager_def)
qed

lemma blocklist_dom_constructed:
  "dom (blocklist (constructed content)) = fst ` set (accepted_rules (getlines content))"
  by (simp add: constructed_eq blocklist_dom_load_lines) (simp add: cleared_def)

lemma pool_dom_constructed:
  "dom (addressPool (constructed content)) = snd ` set (accepted_rules (getlines content))"
  by (simp add: constructed_eq pool_dom_load_lines) (simp add: cleared_def)

lemma mgr_inv_constructed: "mgr_inv (constructed content)"
  unfolding constructed_def by (rule mgr_inv_new)

subsection \<open>Accepted lines and the loaded tables\<close>

lemma accepted_rule_few_fields:
  "length (line_fields (erase_trailing line)) < 2 \<Longrightarrow> accepted_rule line = None"
  by (simp add: accepted_rule_def extract_two_None_iff [symmetric])

lemma accepted_rule_fields:
  "line \<noteq> [] \<Longrightarrow> hd line \<noteq> CHR ''#'' \<Longrightarrow>
   line_fields (erase_trailing line) = address # domain # rest \<Longrightarrow>
   accepted_rule line = Some (map tolower domain, address)"
  by (simp add: accepted_rule_def extract_two_fields)

lemma set_accepted_rules:
  "set (accepted_rules ls) = {r. \<exists>l\<in>set ls. accepted_rule l = Some r}"
  by (induction ls) (auto simp: accepted_rules_Nil accepted_rules_Cons split: option.splits)

lemma map_of_last_wins:
  "k \<notin> fst ` set post \<Longrightarrow> map_of (rev (pre @ (k, a) # post)) k = Some a"
proof -
  assume "k \<notin> fst ` set post"
  then have "map_of (rev post) k = None"
    by (simp add: map_of_eq_None_iff)
  then show ?thesis
    by (simp add: map_add_def)
qed

lemma index_view_loaded:
  assumes "stat_call w t (blocklistPath m) = Some fileStat"
    and "open_call w (t + 1) (blocklistPath m) = Some content"
  shows "index_view (snd (loadBlocklist w t m)) = map_of (rev (accepted_rules (getlines content)))"
  by (simp add: loadBlocklist_success [OF assms] index_view_load_lines [OF mgr_inv_cleared]
      index_view_cleared)

lemma lookupDomain_exact:
  "mgr_inv m \<Longrightarrow> index_view m k = Some a \<Longrightarrow> lookupDomain m k = Some (True, a)"
  by (simp add: lookupDomain_spec spec_lookup_def)

subsection \<open>Shared pointers and answers without a match\<close>

lemma handles_shared:
  assumes inv: "mgr_inv m"
    and e1: "blocklist m k1 = Some e1" and e2: "blocklist m k2 = Some e2"
    and h1: "heap m (targetAddress e1) = Some a" and h2: "heap m (targetAddress e2) = Some a"
  shows "targetAddress e1 = targetAddress e2" and "addressPool m a = Some (targetAddress e1)"
proof -
  from mgr_inv_entry [OF inv e1] h1 have p1: "addressPool m a = Some (targetAddress e1)"
    by auto
  from mgr_inv_entry [OF inv e2] h2 have p2: "addressPool m a = Some (targetAddress e2)"
    by auto
  from p1 p2 show "targetAddress e1 = targetAddress e2" by simp
  from p1 show "addressPool m a = Some (targetAddress e1)" .
qed

lemma index_view_empty: "blocklist m = Map.empty \<Longrightarrow> index_view m = Map.empty"
  by (simp add: index_view_def fun_eq_iff)

lemma lookupDomain_no_match:
  assumes inv: "mgr_inv m" and exact: "blocklist m d = None"
    and cands: "\<And>c. c \<in> set (wildcard_candidates d) \<Longrightarrow> blocklist m c = None"
  shows "lookupDomain m d = Some (False, '''')"
proof -
  have "index_view m c = None" if "c \<in> set (wildcard_candidates d)" for c
    using cands [OF that] by (simp add: index_view_def)
  then have "List.map_filter (index_view m) (wildcard_candidates d) = []"
    by (rule map_filter_absent)
  moreover from exact have "index_view m d = None"
    by (simp add: index_view_def)
  ultimately show ?thesis
    by (simp add: lookupDomain_spec [OF inv] spec_lookup_def)
qed

lemma lookupDomain_returns: "mgr_inv m \<Longrightarrow> \<exists>b a. lookupDomain m d = Some (b, a)"
  by (cases "spec_lookup (index_view m) d") (simp add: lookupDomain_spec)

lemma tables_loaded:
  assumes "stat_call w t (blocklistPath m) = Some fileStat"
    and "open_call w (t + 1) (blocklistPath m) = Some content"
  shows "dom (addressPool (snd (loadBlocklist w t m))) = snd ` set (accepted_rules (getlines content))"
    and "dom (blocklist (snd (loadBlocklist w t m))) = fst ` set (accepted_rules (getlines content))"
  by (simp_all add: loadBlocklist_success [OF assms] pool_dom_load_lines blocklist_dom_load_lines)
    (simp_all add: cleared_def)

lemma new_manager_unavailable:
  assumes "stat_call w t0 path = None \<or> open_call w (t0 + 1) path = None"
  shows "snd (new_BlocklistManager w t0 path) = initial_manager path"
proof -
  have "blocklistPath (initial_manager path) = path"
    by (rule constructed_load(3))
  with assms have "stat_call w t0 (blocklistPath (initial_manager path)) = None \<or>
      open_call w (t0 + 1) (blocklistPath (initial_manager path)) = None"
    by simp
  then show ?thesis
    unfolding new_BlocklistManager_def by (rule loadBlocklist_failure)
qed

section \<open>The claims\<close>

text \<open>
  \<^bold>\<open>C6\<close>. When \<open>stat\<close> fails or the file cannot be opened, \<open>loadBlocklist\<close>
  returns before it touches anything: the whole manager (index, pool, shared strings and
  recorded file snapshot) is as before. The same holds for \<open>forceReload\<close>, and for
  \<open>checkDomain\<close> in a file system where the file can never be read.
\<close>

theorem failed_reload_keeps_state:
  "(stat_call w t (blocklistPath m) = None \<or> open_call w (t + 1) (blocklistPath m) = None \<longrightarrow>
      snd (loadBlocklist w t m) = m \<and> snd (forceReload w t m) = m) \<and>
   ((\<forall>i. stat_call w i (blocklistPath m) = None \<or> open_call w (i + 1) (blocklistPath m) = None) \<longrightarrow>
      snd (snd (checkDomain w t m d)) = m)"
proof (intro conjI impI)
  assume f: "stat_call w t (blocklistPath m) = None \<or> open_call w (t + 1) (blocklistPath m) = None"
  then show "snd (loadBlocklist w t m) = m"
    by (rule loadBlocklist_failure)
  with f show "snd (forceReload w t m) = m"
    by (simp add: forceReload_def)
next
  assume f: "\<forall>i. stat_call w i (blocklistPath m) = None \<or> open_call w (i + 1) (blocklistPath m) = None"
  show "snd (snd (checkDomain w t m d)) = m"
  proof (cases rule: checkDomain_cases [of w t m d])
    case (1 t')
    then show ?thesis by simp
  next
    case (2 t2 t')
    from f have "stat_call w t2 (blocklistPath m) = None \<or>
        open_call w (t2 + 1) (blocklistPath m) = None"
      by (rule spec)
    then have "snd (loadBlocklist w t2 m) = m"
      by (rule loadBlocklist_failure)
    with 2 show ?thesis by simp
  qed
qed

theorem failed_reload_keeps_state_witness:
  "snd (loadBlocklist missing_world 7 (constructed ''0.0.0.0 x.com'')) = constructed ''0.0.0.0 x.com'' \<and>
   snd (forceReload missing_world 7 (constructed ''0.0.0.0 x.com'')) = constructed ''0.0.0.0 x.com'' \<and>
   snd (snd (checkDomain missing_world 7 (constructed ''0.0.0.0 x.com'') ''x.com'')) =
     constructed ''0.0.0.0 x.com'' \<and>
   index_view (constructed ''0.0.0.0 x.com'') ''x.com'' = Some ''0.0.0.0''"
proof -
  have s: "stat_call missing_world i p = None" for i p
    by (simp add: stat_call_def missing_world_def)
  have "index_view (constructed ''0.0.0.0 x.com'') ''x.com'' = Some ''0.0.0.0''"
    by code_simp
  with failed_reload_keeps_state [of missing_world 7 "constructed ''0.0.0.0 x.com''" "''x.com''"] s
  show ?thesis by simp
qed

text \<open>
  \<^bold>\<open>C8\<close>. \<open>checkDomain\<close> lowercases its argument before anything else, and lowercasing
  twice is lowercasing once: a domain and its lowercase form get the same answer, at the
  same instant, and leave the same manager.
\<close>

theorem checkDomain_case_insensitive:
  "checkDomain w t m d = checkDomain w t m (map tolower d)"
  by (simp only: checkDomain_def map_tolower_idem)

theorem checkDomain_case_insensitive_witness:
  "checkDomain (steady_world ''0.0.0.0 example.com'') 2 (constructed ''0.0.0.0 example.com'') ''EXAMPLE.com'' =
   checkDomain (steady_world ''0.0.0.0 example.com'') 2 (constructed ''0.0.0.0 example.com'') ''example.com'' \<and>
   fst (checkDomain (steady_world ''0.0.0.0 example.com'') 2 (constructed ''0.0.0.0 example.com'') ''EXAMPLE.com'') =
     Some (True, ''0.0.0.0'')"
proof -
  have l: "map tolower ''EXAMPLE.com'' = ''example.com''"
    by code_simp
  have "fst (checkDomain (steady_world ''0.0.0.0 example.com'') 2 (constructed ''0.0.0.0 example.com'') ''example.com'') =
     Some (True, ''0.0.0.0'')"
    by code_simp
  with checkDomain_case_insensitive [of "steady_world ''0.0.0.0 example.com''" 2
      "constructed ''0.0.0.0 example.com''" "''EXAMPLE.com''"] l
  show ?thesis by simp
qed

text \<open>
  \<^bold>\<open>C7\<close>. \<open>shouldReload\<close> answers no when \<open>stat\<close> fails, and no when size, seconds
  and nanoseconds all equal the recorded snapshot. When one of them differs, it answers
  yes exactly when the two further \<open>stat\<close> calls of the stability check, one before
  and one after the delay, both succeed and agree on size, seconds and nanoseconds.
\<close>

theorem shouldReload_decision:
  "(stat_call w t (blocklistPath m) = None \<longrightarrow> \<not> fst (shouldReload w t m)) \<and>
   (\<forall>s. stat_call w t (blocklistPath m) = Some s \<and>
        st_size s = fileSize (lastFileInfo m) \<and>
        tv_sec (st_mtim s) = tv_sec (modTime (lastFileInfo m)) \<and>
        tv_nsec (st_mtim s) = tv_nsec (modTime (lastFileInfo m)) \<longrightarrow>
        \<not> fst (shouldReload w t m)) \<and>
   (\<forall>s. stat_call w t (blocklistPath m) = Some s \<and>
        (st_size s \<noteq> fileSize (lastFileInfo m) \<or>
         tv_sec (st_mtim s) \<noteq> tv_sec (modTime (lastFileInfo m)) \<or>
         tv_nsec (st_mtim s) \<noteq> tv_nsec (modTime (lastFileInfo m))) \<longrightarrow>
        (fst (shouldReload w t m) \<longleftrightarrow>
           (\<exists>s1 s2. stat_call w (t + 1) (blocklistPath m) = Some s1 \<and>
              stat_call w (t + 3) (blocklistPath m) = Some s2 \<and>
              st_size s1 = st_size s2 \<and>
              tv_sec (st_mtim s1) = tv_sec (st_mtim s2) \<and>
              tv_nsec (st_mtim s1) = tv_nsec (st_mtim s2))))"
proof (intro conjI allI impI)
  assume "stat_call w t (blocklistPath m) = None"
  then show "\<not> fst (shouldReload w t m)"
    by (simp add: shouldReload_def)
next
  fix s
  assume "stat_call w t (blocklistPath m) = Some s \<and>
        st_size s = fileSize (lastFileInfo m) \<and>
        tv_sec (st_mtim s) = tv_sec (modTime (lastFileInfo m)) \<and>
        tv_nsec (st_mtim s) = tv_nsec (modTime (lastFileInfo m))"
  then show "\<not> fst (shouldReload w t m)"
    by (simp add: shouldReload_def)
next
  fix s
  assume a: "stat_call w t (blocklistPath m) = Some s \<and>
        (st_size s \<noteq> fileSize (lastFileInfo m) \<or>
         tv_sec (st_mtim s) \<noteq> tv_sec (modTime (lastFileInfo m)) \<or>
         tv_nsec (st_mtim s) \<noteq> tv_nsec (modTime (lastFileInfo m)))"
  then have "fst (shouldReload w t m) = fst (isFileStable w (t + 1) m)"
    by (auto simp: shouldReload_def Let_def split: prod.splits)
  moreover have "fst (isFileStable w (t + 1) m) \<longleftrightarrow>
      (\<exists>s1 s2. stat_call w (t + 1) (blocklistPath m) = Some s1 \<and>
              stat_call w (t + 3) (blocklistPath m) = Some s2 \<and>
              st_size s1 = st_size s2 \<and>
              tv_sec (st_mtim s1) = tv_sec (st_mtim s2) \<and>
              tv_nsec (st_mtim s1) = tv_nsec (st_mtim s2))"
    by (simp add: isFileStable_def numeral_3_eq_3 split: option.splits)
  ultimately show "fst (shouldReload w t m) \<longleftrightarrow>
      (\<exists>s1 s2. stat_call w (t + 1) (blocklistPath m) = Some s1 \<and>
              stat_call w (t + 3) (blocklistPath m) = Some s2 \<and>
              st_size s1 = st_size s2 \<and>
              tv_sec (st_mtim s1) = tv_sec (st_mtim s2) \<and>
              tv_nsec (st_mtim s1) = tv_nsec (st_mtim s2))"
    by simp
qed

theorem shouldReload_decision_witness:
  "\<not> fst (shouldReload missing_world 2 (constructed ''0.0.0.0 x.com'')) \<and>
   \<not> fst (shouldReload (steady_world ''0.0.0.0 x.com'') 2 (constructed ''0.0.0.0 x.com'')) \<and>
   fst (shouldReload (steady_world ''0.0.0.0 x.com\<newline>0.0.0.0 y.com'') 2
          (constructed ''0.0.0.0 x.com'')) \<and>
   \<not> fst (shouldReload growing_world 2 (constructed ''0.0.0.0 x.com''))"
proof -
  let ?m = "constructed ''0.0.0.0 x.com''"
  have p: "blocklistPath ?m = ''/data/etc/hosts''"
    by code_simp
  have i: "lastFileInfo ?m = \<lparr>modTime = \<lparr>tv_sec = 1700000000, tv_nsec = 5\<rparr>, fileSize = 13\<rparr>"
    by code_simp
  have "\<not> fst (shouldReload missing_world 2 ?m)"
    using shouldReload_decision [of missing_world 2 ?m]
    by (simp add: stat_call_def missing_world_def)
  moreover have "\<not> fst (shouldReload (steady_world ''0.0.0.0 x.com'') 2 ?m)"
    using shouldReload_decision [of "steady_world ''0.0.0.0 x.com''" 2 ?m]
    by (simp add: stat_call_def steady_world_def p i)
  moreover have "fst (shouldReload (steady_world ''0.0.0.0 x.com\<newline>0.0.0.0 y.com'') 2 ?m)"
    using shouldReload_decision [of "steady_world ''0.0.0.0 x.com\<newline>0.0.0.0 y.com''" 2 ?m]
    by (simp add: stat_call_def steady_world_def p i)
  moreover have "\<not> fst (shouldReload growing_world 2 ?m)"
    using shouldReload_decision [of growing_world 2 ?m]
    by (simp add: stat_call_def growing_world_def p i)
  ultimately show ?thesis by blast
qed

text \<open>
  \<^bold>\<open>C2\<close>. On a well-formed manager \<open>lookupDomain\<close> computes the two-phase rule of the
  specification: the exact key first; otherwise the candidates \<open>d[i:]\<close> for the positions
  \<open>i\<close> of a dot in \<open>d\<close>, left to right, and the address of the first candidate that
  is a key; \<open>(false, "")\<close> when none is. It always returns. A domain without a dot has
  no candidate and the wildcard loop answers \<open>(false, "")\<close> for it. \<open>checkDomain\<close>
  answers with this rule on the lowercased domain and the index it leaves.
\<close>

theorem lookupDomain_two_phase:
  assumes "mgr_inv m"
  shows "lookupDomain m d = Some (spec_lookup (index_view m) d) \<and>
    (CHR ''.'' \<notin> set d \<longrightarrow>
       wildcard_candidates d = [] \<and> wildcard_loop m d 0 = Some (False, '''')) \<and>
    (\<forall>r t' m'. checkDomain w t m d = (r, t', m') \<longrightarrow>
       r = Some (spec_lookup (index_view m') (map tolower d)))"
proof (intro conjI impI allI)
  show "lookupDomain m d = Some (spec_lookup (index_view m) d)"
    using assms by (rule lookupDomain_spec)
next
  assume nodot: "CHR ''.'' \<notin> set d"
  then have "CHR ''.'' \<notin> set (drop 0 d)" by simp
  then have "filter (\<lambda>i. d ! i = CHR ''.'') [0..<length d] = []"
    by (rule filter_upt_none)
  then show "wildcard_candidates d = []"
    by (simp add: wildcard_candidates_def separator_positions_def)
  from nodot have "find_from d (CHR ''.'') 0 = None"
    by (simp add: find_from_def)
  then show "wildcard_loop m d 0 = Some (False, '''')"
    by (simp add: wildcard_loop.simps [of m d 0])
next
  fix r t' m'
  assume c: "checkDomain w t m d = (r, t', m')"
  then have "r = lookupDomain m' (map tolower d)"
    by (rule checkDomain_lookup)
  moreover from assms c have "mgr_inv m'"
    by (rule mgr_inv_checkDomain)
  ultimately show "r = Some (spec_lookup (index_view m') (map tolower d))"
    by (simp add: lookupDomain_spec)
qed

theorem lookupDomain_two_phase_witness:
  "lookupDomain (constructed ''0.0.0.0 .example.com\<newline>1.1.1.1 .b.example.com'') ''a.b.example.com'' =
     Some (True, ''1.1.1.1'') \<and>
   wildcard_loop (constructed ''0.0.0.0 .example.com\<newline>1.1.1.1 .b.example.com'') ''localhost'' 0 =
     Some (False, '''') \<and>
   fst (checkDomain (steady_world ''0.0.0.0 .example.com\<newline>1.1.1.1 .b.example.com'') 2
          (constructed ''0.0.0.0 .example.com\<newline>1.1.1.1 .b.example.com'') ''WWW.Example.COM'') =
     Some (True, ''0.0.0.0'')"
proof -
  let ?c = "''0.0.0.0 .example.com\<newline>1.1.1.1 .b.example.com''"
  have inv: "mgr_inv (constructed ?c)"
    unfolding constructed_def by (rule mgr_inv_new)
  have s1: "spec_lookup (index_view (constructed ?c)) ''a.b.example.com'' = (True, ''1.1.1.1'')"
    by code_simp
  have nodot: "CHR ''.'' \<notin> set ''localhost''"
    by simp
  have l: "map tolower ''WWW.Example.COM'' = ''www.example.com''"
    by code_simp
  have "\<not> fst (shouldReload (steady_world ?c) 2 (constructed ?c))"
    by code_simp
  then have "checkDomain (steady_world ?c) 2 (constructed ?c) ''WWW.Example.COM'' =
      (lookupDomain (constructed ?c) (map tolower ''WWW.Example.COM''),
       snd (shouldReload (steady_world ?c) 2 (constructed ?c)), constructed ?c)"
    by (rule checkDomain_no_reload)
  then have c: "checkDomain (steady_world ?c) 2 (constructed ?c) ''WWW.Example.COM'' =
      (lookupDomain (constructed ?c) ''www.example.com'',
       snd (shouldReload (steady_world ?c) 2 (constructed ?c)), constructed ?c)"
    unfolding l .
  have s2: "spec_lookup (index_view (constructed ?c)) ''www.example.com'' = (True, ''0.0.0.0'')"
    by code_simp
  note th = lookupDomain_two_phase [OF inv]
  have "lookupDomain (constructed ?c) ''a.b.example.com'' = Some (True, ''1.1.1.1'')"
    using th [of "''a.b.example.com''"] s1 by simp
  moreover have "wildcard_loop (constructed ?c) ''localhost'' 0 = Some (False, '''')"
    using th [of "''localhost''"] nodot by simp
  moreover have "fst (checkDomain (steady_world ?c) 2 (constructed ?c) ''WWW.Example.COM'') =
      Some (True, ''0.0.0.0'')"
    using th [of "''WWW.Example.COM''" "steady_world ?c" 2] c l s2 by simp
  ultimately show ?thesis by blast
qed

text \<open>
  \<^bold>\<open>C1\<close>. With a wildcard key \<open>.p\<close> in the index that \<open>checkDomain\<close> looks up in,
  every domain whose lowercase form ends in \<open>.p\<close> is answered as blocked; the address is
  the rule's when neither the domain itself nor a longer dot-suffix of it is a key. The
  bare domain \<open>p\<close> is not matched by the rule: when \<open>.p\<close> is the only key, the answer
  for \<open>p\<close> is \<open>(false, "")\<close>.
\<close>

theorem wildcard_rule_subdomains:
  assumes "mgr_inv m" and "checkDomain w t m d = (r, t', m')"
    and "index_view m' (CHR ''.'' # p) = Some addr"
  shows "(\<forall>l. map tolower d = l @ CHR ''.'' # p \<longrightarrow>
            (\<exists>a. r = Some (True, a)) \<and>
            ((\<forall>i<length l. (i = 0 \<or> l ! i = CHR ''.'') \<longrightarrow>
                blocklist m' (drop i (map tolower d)) = None) \<longrightarrow>
             r = Some (True, addr))) \<and>
         (map tolower d = p \<and> (\<forall>k. blocklist m' k \<noteq> None \<longrightarrow> k = CHR ''.'' # p) \<longrightarrow>
            r = Some (False, ''''))"
proof -
  from assms(1,2) have inv: "mgr_inv m'"
    by (rule mgr_inv_checkDomain)
  from assms(2) have r: "r = lookupDomain m' (map tolower d)"
    by (rule checkDomain_lookup)
  show ?thesis
  proof (intro conjI allI impI)
    fix l assume d: "map tolower d = l @ CHR ''.'' # p"
    from lookup_wildcard_rule(1) [OF inv assms(3), of l] obtain a
      where "lookupDomain m' (l @ CHR ''.'' # p) = Some (True, a)" ..
    then have "r = Some (True, a)"
      unfolding r d .
    then show "\<exists>a. r = Some (True, a)" ..
  next
    fix l
    assume d: "map tolower d = l @ CHR ''.'' # p"
      and a: "\<forall>i<length l. (i = 0 \<or> l ! i = CHR ''.'') \<longrightarrow>
                blocklist m' (drop i (map tolower d)) = None"
    have "lookupDomain m' (l @ CHR ''.'' # p) = Some (True, addr)"
    proof (rule lookup_wildcard_rule(2) [OF inv assms(3)])
      fix i assume i: "i < length l" "i = 0 \<or> l ! i = CHR ''.''"
      from a have "i < length l \<longrightarrow> (i = 0 \<or> l ! i = CHR ''.'') \<longrightarrow>
          blocklist m' (drop i (map tolower d)) = None"
        by (rule spec)
      with i have "blocklist m' (drop i (map tolower d)) = None"
        by (elim impE) assumption+
      then show "blocklist m' (drop i (l @ CHR ''.'' # p)) = None"
        unfolding d .
    qed
    then show "r = Some (True, addr)"
      unfolding r d .
  next
    assume a: "map tolower d = p \<and> (\<forall>k. blocklist m' k \<noteq> None \<longrightarrow> k = CHR ''.'' # p)"
    then have d: "map tolower d = p" ..
    have "lookupDomain m' p = Some (False, '''')"
    proof (rule lookup_only_wildcard_rule [OF inv])
      fix k assume "blocklist m' k \<noteq> None"
      with a show "k = CHR ''.'' # p" by blast
    qed
    then show "r = Some (False, '''')"
      unfolding r d .
  qed
qed

theorem wildcard_rule_subdomains_witness:
  "fst (checkDomain (steady_world ''0.0.0.0 .example.com'') 2
          (constructed ''0.0.0.0 .example.com'') ''ads.example.com'') = Some (True, ''0.0.0.0'') \<and>
   fst (checkDomain (steady_world ''0.0.0.0 .example.com'') 2
          (constructed ''0.0.0.0 .example.com'') ''a.b.Example.com'') = Some (True, ''0.0.0.0'') \<and>
   fst (checkDomain (steady_world ''0.0.0.0 .example.com'') 2
          (constructed ''0.0.0.0 .example.com'') ''example.com'') = Some (False, '''')"
proof -
  let ?c = "''0.0.0.0 .example.com''"
  let ?w = "steady_world ?c"
  let ?m = "constructed ?c"
  have inv: "mgr_inv ?m"
    by (rule mgr_inv_constructed)
  have rule: "index_view ?m (CHR ''.'' # ''example.com'') = Some ''0.0.0.0''"
    by code_simp
  have "accepted_rules (getlines ?c) = [(''.example.com'', ''0.0.0.0'')]"
    by code_simp
  then have keys: "dom (blocklist ?m) = {''.example.com''}"
    by (simp add: blocklist_dom_constructed)
  have only: "k = CHR ''.'' # ''example.com''" if "blocklist ?m k \<noteq> None" for k
  proof -
    from that have "k \<in> dom (blocklist ?m)" by (simp add: dom_def)
    then show ?thesis unfolding keys by simp
  qed
  have absent: "blocklist ?m (drop i (l @ CHR ''.'' # ''example.com'')) = None"
    if "i < length l" for i l
  proof (rule ccontr)
    assume "blocklist ?m (drop i (l @ CHR ''.'' # ''example.com'')) \<noteq> None"
    then have "drop i (l @ CHR ''.'' # ''example.com'') = CHR ''.'' # ''example.com''"
      by (rule only)
    then have "length (drop i (l @ CHR ''.'' # ''example.com'')) = length (CHR ''.'' # ''example.com'')"
      by (rule arg_cong)
    with that show False by simp
  qed
  have quiet: "\<not> fst (shouldReload ?w 2 ?m)"
    by code_simp
  have run: "checkDomain ?w 2 ?m d = (lookupDomain ?m (map tolower d), snd (shouldReload ?w 2 ?m), ?m)"
    for d
    using quiet by (rule checkDomain_no_reload)
  have l1: "map tolower ''ads.example.com'' = ''ads'' @ CHR ''.'' # ''example.com''"
    by code_simp
  have l2: "map tolower ''a.b.Example.com'' = ''a.b'' @ CHR ''.'' # ''example.com''"
    by code_simp
  have l3: "map tolower ''example.com'' = ''example.com''"
    by code_simp
  have "lookupDomain ?m (map tolower ''ads.example.com'') = Some (True, ''0.0.0.0'')"
  proof (rule wildcard_rule_subdomains [OF inv run [of "''ads.example.com''"] rule,
        THEN conjunct1, rule_format, OF l1, THEN conjunct2, rule_format])
    fix i assume "i < length ''ads''"
    then show "blocklist ?m (drop i (map tolower ''ads.example.com'')) = None"
      unfolding l1 by (rule absent)
  qed
  moreover have "lookupDomain ?m (map tolower ''a.b.Example.com'') = Some (True, ''0.0.0.0'')"
  proof (rule wildcard_rule_subdomains [OF inv run [of "''a.b.Example.com''"] rule,
        THEN conjunct1, rule_format, OF l2, THEN conjunct2, rule_format])
    fix i assume "i < length ''a.b''"
    then show "blocklist ?m (drop i (map tolower ''a.b.Example.com'')) = None"
      unfolding l2 by (rule absent)
  qed
  moreover have "lookupDomain ?m (map tolower ''example.com'') = Some (False, '''')"
  proof (rule wildcard_rule_subdomains [OF inv run [of "''example.com''"] rule,
        THEN conjunct2, rule_format])
    show "map tolower ''example.com'' = ''example.com'' \<and>
        (\<forall>k. blocklist ?m k \<noteq> None \<longrightarrow> k = CHR ''.'' # ''example.com'')"
      using l3 by (intro conjI allI impI only)
  qed
  ultimately show ?thesis
    by (simp only: run fst_conv)
qed

theorem wildcard_bare_domain_counterexample:
  "index_view (constructed ''0.0.0.0 .example.com'') ''.example.com'' = Some ''0.0.0.0'' \<and>
   fst (checkDomain (steady_world ''0.0.0.0 .example.com'') 2
          (constructed ''0.0.0.0 .example.com'') ''example.com'') = Some (False, '''')"
proof
  show "index_view (constructed ''0.0.0.0 .example.com'') ''.example.com'' = Some ''0.0.0.0''"
    by code_simp
  show "fst (checkDomain (steady_world ''0.0.0.0 .example.com'') 2
          (constructed ''0.0.0.0 .example.com'') ''example.com'') = Some (False, '''')"
    by code_simp
qed

text \<open>
  \<^bold>\<open>C3\<close>. A line whose text, after the trailing white space is erased, has fewer than two
  white-space-separated fields leaves the manager as it is, and the load goes on as if the
  line were not in the file. A line that is neither empty nor a comment and has two fields
  or more is accepted: the index maps the lowercased second field to the first field, and
  the fields after the second are ignored.
\<close>

theorem short_line_skipped:
  "(length (line_fields (erase_trailing line)) < 2 \<longrightarrow>
      process_line m line = m \<and>
      load_lines m (pre @ line # post) = load_lines m (pre @ post)) \<and>
   (\<forall>address domain rest.
      mgr_inv m \<and> line \<noteq> [] \<and> hd line \<noteq> CHR ''#'' \<and>
      line_fields (erase_trailing line) = address # domain # rest \<longrightarrow>
      index_view (process_line m line) = (index_view m)(map tolower domain \<mapsto> address))"
proof (intro conjI impI allI)
  assume "length (line_fields (erase_trailing line)) < 2"
  then have none: "accepted_rule l = None" if "l = line" for l
    using that by (simp add: accepted_rule_few_fields)
  then show "process_line m line = m"
    by (simp add: process_line_rule)
  from none have "process_line (load_lines m pre) line = load_lines m pre"
    by (simp add: process_line_rule)
  then show "load_lines m (pre @ line # post) = load_lines m (pre @ post)"
    by (simp add: load_lines_append)
next
  fix address domain rest
  assume a: "mgr_inv m \<and> line \<noteq> [] \<and> hd line \<noteq> CHR ''#'' \<and>
      line_fields (erase_trailing line) = address # domain # rest"
  then have "accepted_rule line = Some (map tolower domain, address)"
    by (intro accepted_rule_fields) simp_all
  with a show "index_view (process_line m line) = (index_view m)(map tolower domain \<mapsto> address)"
    by (simp add: process_line_rule index_view_store_rule)
qed

theorem short_line_skipped_witness:
  "process_line (constructed ''1.1.1.1 b.com'') ''0.0.0.0  '' = constructed ''1.1.1.1 b.com'' \<and>
   load_lines (constructed ''1.1.1.1 b.com'') [''0.0.0.0 a.com'', ''0.0.0.0  '', ''9.9.9.9 c.com''] =
     load_lines (constructed ''1.1.1.1 b.com'') [''0.0.0.0 a.com'', ''9.9.9.9 c.com''] \<and>
   index_view (process_line (constructed ''1.1.1.1 b.com'') ''0.0.0.0 A.com extra'') =
     (index_view (constructed ''1.1.1.1 b.com''))(''a.com'' \<mapsto> ''0.0.0.0'')"
proof -
  let ?m = "constructed ''1.1.1.1 b.com''"
  have inv: "mgr_inv ?m"
    by (rule mgr_inv_constructed)
  have short: "length (line_fields (erase_trailing ''0.0.0.0  '')) < 2"
    by code_simp
  have long: "line_fields (erase_trailing ''0.0.0.0 A.com extra'') = [''0.0.0.0'', ''A.com'', ''extra'']"
    by code_simp
  have low: "map tolower ''A.com'' = ''a.com''"
    by code_simp
  have "process_line ?m ''0.0.0.0  '' = ?m \<and>
      load_lines ?m ([''0.0.0.0 a.com''] @ ''0.0.0.0  '' # [''9.9.9.9 c.com'']) =
        load_lines ?m ([''0.0.0.0 a.com''] @ [''9.9.9.9 c.com''])"
    using short_line_skipped [of "''0.0.0.0  ''" ?m "[''0.0.0.0 a.com'']" "[''9.9.9.9 c.com'']",
        THEN conjunct1] short
    by (rule mp)
  moreover have "index_view (process_line ?m ''0.0.0.0 A.com extra'') =
      (index_view ?m)(map tolower ''A.com'' \<mapsto> ''0.0.0.0'')"
    using short_line_skipped [of "''0.0.0.0 A.com extra''" ?m, THEN conjunct2, rule_format,
        of "''0.0.0.0''" "''A.com''" "[''extra'']"] inv long
    by simp
  ultimately show ?thesis
    unfolding low by simp
qed

theorem three_fields_accepted_counterexample:
  "length (line_fields (erase_trailing ''0.0.0.0 a.com extra'')) = 3 \<and>
   index_view (constructed ''0.0.0.0 a.com extra'') ''a.com'' = Some ''0.0.0.0''"
proof
  show "length (line_fields (erase_trailing ''0.0.0.0 a.com extra'')) = 3"
    by code_simp
  show "index_view (constructed ''0.0.0.0 a.com extra'') ''a.com'' = Some ''0.0.0.0''"
    by code_simp
qed

text \<open>
  \<^bold>\<open>C4\<close>. When a load succeeds, the key of an accepted line that no later line of the
  file overrides is mapped to that line's address, whatever earlier lines said for the key:
  the last accepted line for a key wins, and \<open>lookupDomain\<close> answers with its address.
\<close>

theorem last_line_wins:
  assumes "stat_call w t (blocklistPath m) = Some fileStat"
    and "open_call w (t + 1) (blocklistPath m) = Some content"
    and "getlines content = pre @ line # post"
    and "accepted_rule line = Some (k, a)"
    and "\<forall>l\<in>set post. \<forall>a'. accepted_rule l \<noteq> Some (k, a')"
  shows "index_view (snd (loadBlocklist w t m)) k = Some a \<and>
         lookupDomain (snd (loadBlocklist w t m)) k = Some (True, a)"
proof -
  have "accepted_rules (getlines content) = accepted_rules pre @ (k, a) # accepted_rules post"
    using assms(3,4) by (simp add: accepted_rules_append accepted_rules_Cons)
  moreover have "k \<notin> fst ` set (accepted_rules post)"
    using assms(5) by (auto simp: set_accepted_rules)
  ultimately have "map_of (rev (accepted_rules (getlines content))) k = Some a"
    using map_of_last_wins [of k "accepted_rules post" "accepted_rules pre" a] by simp
  then have i: "index_view (snd (loadBlocklist w t m)) k = Some a"
    by (simp only: index_view_loaded [OF assms(1,2)])
  have "mgr_inv (snd (loadBlocklist w t m))"
    by (simp add: loadBlocklist_success [OF assms(1,2)] mgr_inv_load_lines mgr_inv_cleared)
  then have "lookupDomain (snd (loadBlocklist w t m)) k = Some (True, a)"
    using i by (rule lookupDomain_exact)
  with i show ?thesis ..
qed

theorem last_line_wins_witness:
  "index_view (constructed ''0.0.0.0 x.com\<newline>9.9.9.9 x.com'') ''x.com'' = Some ''9.9.9.9'' \<and>
   lookupDomain (constructed ''0.0.0.0 x.com\<newline>9.9.9.9 x.com'') ''x.com'' = Some (True, ''9.9.9.9'') \<and>
   fst (checkDomain (steady_world ''0.0.0.0 x.com\<newline>9.9.9.9 x.com'') 2
          (constructed ''0.0.0.0 x.com\<newline>9.9.9.9 x.com'') ''x.com'') = Some (True, ''9.9.9.9'')"
proof -
  let ?c = "''0.0.0.0 x.com\<newline>9.9.9.9 x.com''"
  let ?init = "initial_manager ''/data/etc/hosts''"
  have s: "stat_call (steady_world ?c) 0 (blocklistPath ?init) =
      Some \<lparr>st_mtim = \<lparr>tv_sec = 1700000000, tv_nsec = 5\<rparr>, st_size = int (length ?c)\<rparr>"
    by (simp only: constructed_load)
  have opn: "open_call (steady_world ?c) (0 + 1) (blocklistPath ?init) = Some ?c"
    by (simp only: constructed_load)
  have ls: "getlines ?c = [''0.0.0.0 x.com''] @ ''9.9.9.9 x.com'' # []"
    by code_simp
  have acc: "accepted_rule ''9.9.9.9 x.com'' = Some (''x.com'', ''9.9.9.9'')"
    by code_simp
  have later: "\<forall>l\<in>set []. \<forall>a'. accepted_rule l \<noteq> Some (''x.com'', a')"
    by simp
  note th = last_line_wins [OF s opn ls acc later, folded constructed_load(4)]
  have quiet: "\<not> fst (shouldReload (steady_world ?c) 2 (constructed ?c))"
    by code_simp
  have low: "map tolower ''x.com'' = ''x.com''"
    by code_simp
  have "checkDomain (steady_world ?c) 2 (constructed ?c) ''x.com'' =
      (lookupDomain (constructed ?c) (map tolower ''x.com''),
       snd (shouldReload (steady_world ?c) 2 (constructed ?c)), constructed ?c)"
    using quiet by (rule checkDomain_no_reload)
  then have "fst (checkDomain (steady_world ?c) 2 (constructed ?c) ''x.com'') =
      lookupDomain (constructed ?c) ''x.com''"
    unfolding low by simp
  with th show ?thesis by simp
qed

text \<open>
  \<^bold>\<open>C9\<close>. After \<open>loadBlocklist\<close> on a well-formed manager, whether the load succeeded
  or was abandoned, two entries of the index whose pointers lead to equal strings hold the
  same pointer, and it is the one the pool has for that string. \<open>getOrCreateAddress\<close>
  returns the pooled pointer and changes nothing when the pool has the string; otherwise it
  returns a pointer to a cell that was not in use, now holding the string and recorded in
  the pool, with every other cell and the index as before.
\<close>

theorem equal_addresses_share_handle:
  assumes "mgr_inv m"
  shows "(\<forall>k1 k2 e1 e2 s.
            blocklist (snd (loadBlocklist w t m)) k1 = Some e1 \<and>
            blocklist (snd (loadBlocklist w t m)) k2 = Some e2 \<and>
            heap (snd (loadBlocklist w t m)) (targetAddress e1) = Some s \<and>
            heap (snd (loadBlocklist w t m)) (targetAddress e2) = Some s \<longrightarrow>
            targetAddress e1 = targetAddress e2 \<and>
            addressPool (snd (loadBlocklist w t m)) s = Some (targetAddress e1)) \<and>
         (\<forall>h. addressPool m a = Some h \<longrightarrow> getOrCreateAddress m a = (h, m)) \<and>
         (addressPool m a = None \<longrightarrow>
            heap m (fst (getOrCreateAddress m a)) = None \<and>
            heap (snd (getOrCreateAddress m a)) =
              (heap m)(fst (getOrCreateAddress m a) \<mapsto> a) \<and>
            addressPool (snd (getOrCreateAddress m a)) =
              (addressPool m)(a \<mapsto> fst (getOrCreateAddress m a)) \<and>
            blocklist (snd (getOrCreateAddress m a)) = blocklist m)"
proof (intro conjI allI impI)
  fix k1 k2 e1 e2 s
  let ?m' = "snd (loadBlocklist w t m)"
  assume a: "blocklist ?m' k1 = Some e1 \<and> blocklist ?m' k2 = Some e2 \<and>
      heap ?m' (targetAddress e1) = Some s \<and> heap ?m' (targetAddress e2) = Some s"
  from assms have inv: "mgr_inv ?m'"
    by (rule mgr_inv_loadBlocklist)
  from a have e1: "blocklist ?m' k1 = Some e1" and e2: "blocklist ?m' k2 = Some e2"
    and h1: "heap ?m' (targetAddress e1) = Some s" and h2: "heap ?m' (targetAddress e2) = Some s"
    by simp_all
  show "targetAddress e1 = targetAddress e2"
    using inv e1 e2 h1 h2 by (rule handles_shared(1))
  show "addressPool ?m' s = Some (targetAddress e1)"
    using inv e1 e2 h1 h2 by (rule handles_shared(2))
next
  fix h assume "addressPool m a = Some h"
  then show "getOrCreateAddress m a = (h, m)"
    by (simp add: getOrCreateAddress_def)
next
  assume n: "addressPool m a = None"
  then have g: "getOrCreateAddress m a =
      (nextHandle m,
       m\<lparr>heap := (heap m)(nextHandle m \<mapsto> a), nextHandle := Suc (nextHandle m),
         addressPool := (addressPool m)(a \<mapsto> nextHandle m)\<rparr>)"
    by (simp add: getOrCreateAddress_def Let_def)
  show "heap m (fst (getOrCreateAddress m a)) = None"
    unfolding g using mgr_inv_fresh [OF assms] by simp
  show "heap (snd (getOrCreateAddress m a)) = (heap m)(fst (getOrCreateAddress m a) \<mapsto> a)"
    unfolding g by simp
  show "addressPool (snd (getOrCreateAddress m a)) =
      (addressPool m)(a \<mapsto> fst (getOrCreateAddress m a))"
    unfolding g by simp
  show "blocklist (snd (getOrCreateAddress m a)) = blocklist m"
    unfolding g by simp
qed

theorem equal_addresses_share_handle_witness:
  "blocklist (constructed ''0.0.0.0 a.com\<newline>0.0.0.0 b.com\<newline>127.0.0.1 c.com'') ''a.com'' =
     Some \<lparr>targetAddress = 0\<rparr> \<and>
   blocklist (constructed ''0.0.0.0 a.com\<newline>0.0.0.0 b.com\<newline>127.0.0.1 c.com'') ''b.com'' =
     Some \<lparr>targetAddress = 0\<rparr> \<and>
   addressPool (constructed ''0.0.0.0 a.com\<newline>0.0.0.0 b.com\<newline>127.0.0.1 c.com'') ''0.0.0.0'' =
     Some 0 \<and>
   getOrCreateAddress (constructed ''0.0.0.0 a.com\<newline>0.0.0.0 b.com\<newline>127.0.0.1 c.com'')
     ''0.0.0.0'' =
     (0, constructed ''0.0.0.0 a.com\<newline>0.0.0.0 b.com\<newline>127.0.0.1 c.com'') \<and>
   heap (constructed ''0.0.0.0 a.com\<newline>0.0.0.0 b.com\<newline>127.0.0.1 c.com'')
     (fst (getOrCreateAddress
        (constructed ''0.0.0.0 a.com\<newline>0.0.0.0 b.com\<newline>127.0.0.1 c.com'') ''8.8.8.8'')) = None"
proof -
  let ?c = "''0.0.0.0 a.com\<newline>0.0.0.0 b.com\<newline>127.0.0.1 c.com''"
  let ?init = "initial_manager ''/data/etc/hosts''"
  let ?m = "constructed ?c"
  have e1: "blocklist ?m ''a.com'' = Some \<lparr>targetAddress = 0\<rparr>"
    by code_simp
  have e2: "blocklist ?m ''b.com'' = Some \<lparr>targetAddress = 0\<rparr>"
    by code_simp
  have h: "heap ?m (targetAddress \<lparr>targetAddress = 0\<rparr>) = Some ''0.0.0.0''"
    by code_simp
  have fresh: "addressPool ?m ''8.8.8.8'' = None"
    by code_simp
  have inv0: "mgr_inv ?init"
    by (rule mgr_inv_initial)
  have inv: "mgr_inv ?m"
    by (rule mgr_inv_constructed)
  have "targetAddress \<lparr>targetAddress = 0\<rparr> = targetAddress \<lparr>targetAddress = 0\<rparr> \<and>
      addressPool ?m ''0.0.0.0'' = Some (targetAddress \<lparr>targetAddress = 0\<rparr>)"
    using equal_addresses_share_handle [OF inv0, of "steady_world ?c" 0, THEN conjunct1,
        folded constructed_load(4), rule_format, of "''a.com''" _ "''b.com''" _ "''0.0.0.0''"]
      e1 e2 h
    by blast
  then have pool: "addressPool ?m ''0.0.0.0'' = Some 0"
    by simp
  have hit: "getOrCreateAddress ?m ''0.0.0.0'' = (0, ?m)"
    using equal_addresses_share_handle [OF inv, THEN conjunct2, THEN conjunct1, rule_format]
      pool
    by blast
  have miss: "heap ?m (fst (getOrCreateAddress ?m ''8.8.8.8'')) = None"
    using equal_addresses_share_handle [OF inv, THEN conjunct2, THEN conjunct2, rule_format,
        THEN conjunct1] fresh
    by blast
  from e1 e2 pool hit miss show ?thesis
    by (intro conjI)
qed

text \<open>
  \<^bold>\<open>C10\<close>. Within a load the pool only grows: a string that the pool has keeps its
  pointer through every later line. After a successful load the pool holds exactly the
  address strings of the accepted lines, each under a pointer of its own, so \<open>getStats\<close> reports their number as
  \<open>uniqueAddressCount\<close>, and the number of distinct keys as \<open>domainCount\<close>;
  an address whose only rule was overridden by a later line is still counted.
\<close>

theorem pool_counts_all_addresses:
  assumes "stat_call w t (blocklistPath m) = Some fileStat"
    and "open_call w (t + 1) (blocklistPath m) = Some content"
  shows "dom (addressPool (snd (loadBlocklist w t m))) =
           snd ` set (accepted_rules (getlines content)) \<and>
         snd (getStats (snd (loadBlocklist w t m))) =
           card (snd ` set (accepted_rules (getlines content))) \<and>
         fst (getStats (snd (loadBlocklist w t m))) =
           card (fst ` set (accepted_rules (getlines content))) \<and>
         (\<forall>a1 a2 h. addressPool (snd (loadBlocklist w t m)) a1 = Some h \<and>
            addressPool (snd (loadBlocklist w t m)) a2 = Some h \<longrightarrow> a1 = a2) \<and>
         (\<forall>m0 ls a h. addressPool m0 a = Some h \<longrightarrow>
            addressPool (process_line m0 line) a = Some h \<and>
            addressPool (load_lines m0 ls) a = Some h)"
proof (intro conjI allI impI)
  fix a1 a2 h
  assume p: "addressPool (snd (loadBlocklist w t m)) a1 = Some h \<and>
      addressPool (snd (loadBlocklist w t m)) a2 = Some h"
  have inv: "mgr_inv (snd (loadBlocklist w t m))"
    by (simp add: loadBlocklist_success [OF assms] mgr_inv_load_lines mgr_inv_cleared)
  from p have "heap (snd (loadBlocklist w t m)) h = Some a1"
    and "heap (snd (loadBlocklist w t m)) h = Some a2"
    using mgr_inv_pool [OF inv] by simp_all
  then show "a1 = a2" by simp
next
  show "dom (addressPool (snd (loadBlocklist w t m))) = snd ` set (accepted_rules (getlines content))"
    using assms by (rule tables_loaded(1))
  then show "snd (getStats (snd (loadBlocklist w t m))) =
      card (snd ` set (accepted_rules (getlines content)))"
    by (simp add: getStats_def)
  show "fst (getStats (snd (loadBlocklist w t m))) =
      card (fst ` set (accepted_rules (getlines content)))"
    by (simp add: getStats_def tables_loaded(2) [OF assms])
next
  fix m0 :: BlocklistManager and ls a h
  assume p: "addressPool m0 a = Some h"
  then show "addressPool (process_line m0 line) a = Some h"
    by (rule pool_keeps_process_line)
  from p show "addressPool (load_lines m0 ls) a = Some h"
    by (rule pool_keeps_load_lines)
qed

theorem pool_counts_all_addresses_witness:
  "getStats (constructed ''0.0.0.0 x.com\<newline>9.9.9.9 x.com'') = (1, 2) \<and>
   index_view (constructed ''0.0.0.0 x.com\<newline>9.9.9.9 x.com'') ''x.com'' = Some ''9.9.9.9'' \<and>
   dom (addressPool (constructed ''0.0.0.0 x.com\<newline>9.9.9.9 x.com'')) = {''0.0.0.0'', ''9.9.9.9''}"
proof -
  let ?c = "''0.0.0.0 x.com\<newline>9.9.9.9 x.com''"
  let ?init = "initial_manager ''/data/etc/hosts''"
  have s: "stat_call (steady_world ?c) 0 (blocklistPath ?init) =
      Some \<lparr>st_mtim = \<lparr>tv_sec = 1700000000, tv_nsec = 5\<rparr>, st_size = int (length ?c)\<rparr>"
    by (simp only: constructed_load)
  have opn: "open_call (steady_world ?c) (0 + 1) (blocklistPath ?init) = Some ?c"
    by (simp only: constructed_load)
  have rules: "accepted_rules (getlines ?c) = [(''x.com'', ''0.0.0.0''), (''x.com'', ''9.9.9.9'')]"
    by code_simp
  have idx: "index_view (constructed ?c) ''x.com'' = Some ''9.9.9.9''"
    by code_simp
  note th = pool_counts_all_addresses [OF s opn, folded constructed_load(4), unfolded rules]
  from th have "dom (addressPool (constructed ?c)) = {''0.0.0.0'', ''9.9.9.9''}"
    by simp
  moreover from th have "snd (getStats (constructed ?c)) = 2"
    by simp
  moreover from th have "fst (getStats (constructed ?c)) = 1"
    by simp
  ultimately show ?thesis
    using idx by (simp add: prod_eq_iff)
qed

text \<open>
  \<^bold>\<open>C5\<close>. On a well-formed manager \<open>checkDomain\<close> always returns a pair, never the
  failure of reading through a dead pointer. When neither the lowercased domain nor any of
  its wildcard candidates is a key of the index it looks up in, the pair is
  \<open>(false, "")\<close>. In a file system where the rule file can never be read, the
  constructor leaves the index empty and every later \<open>checkDomain\<close> answers
  \<open>(false, "")\<close>.
\<close>

theorem checkDomain_always_answers:
  "(mgr_inv m \<and> checkDomain w t m d = (r, t', m') \<longrightarrow>
      (\<exists>b a. r = Some (b, a)) \<and>
      (blocklist m' (map tolower d) = None \<and>
       (\<forall>c\<in>set (wildcard_candidates (map tolower d)). blocklist m' c = None) \<longrightarrow>
       r = Some (False, ''''))) \<and>
   ((\<forall>i. stat_call w i path = None \<or> open_call w (i + 1) path = None) \<longrightarrow>
      blocklist (snd (new_BlocklistManager w t0 path)) = Map.empty \<and>
      fst (checkDomain w t (snd (new_BlocklistManager w t0 path)) d) = Some (False, ''''))"
proof (intro conjI impI)
  assume a: "mgr_inv m \<and> checkDomain w t m d = (r, t', m')"
  then have inv: "mgr_inv m'"
    using mgr_inv_checkDomain [of m w t d r t' m'] by simp
  from a have r: "r = lookupDomain m' (map tolower d)"
    using checkDomain_lookup [of w t m d r t' m'] by simp
  show "\<exists>b a. r = Some (b, a)"
    unfolding r using inv by (rule lookupDomain_returns)
  assume n: "blocklist m' (map tolower d) = None \<and>
       (\<forall>c\<in>set (wildcard_candidates (map tolower d)). blocklist m' c = None)"
  show "r = Some (False, '''')"
    unfolding r
  proof (rule lookupDomain_no_match [OF inv])
    from n show "blocklist m' (map tolower d) = None" ..
    fix c assume "c \<in> set (wildcard_candidates (map tolower d))"
    with n show "blocklist m' c = None" by simp
  qed
next
  assume u: "\<forall>i. stat_call w i path = None \<or> open_call w (i + 1) path = None"
  then have "stat_call w t0 path = None \<or> open_call w (t0 + 1) path = None"
    by (rule spec)
  then have m0: "snd (new_BlocklistManager w t0 path) = initial_manager path"
    by (rule new_manager_unavailable)
  show e: "blocklist (snd (new_BlocklistManager w t0 path)) = Map.empty"
    unfolding m0 by (simp add: initial_manager_def)
  let ?m = "initial_manager path"
  have inv: "mgr_inv ?m"
    by (rule mgr_inv_initial)
  have none: "lookupDomain ?m (map tolower d) = Some (False, '''')"
    by (rule lookupDomain_no_match [OF inv]) (simp_all add: initial_manager_def)
  have keep: "snd (loadBlocklist w i ?m) = ?m" for i
  proof (rule loadBlocklist_failure)
    from u have "stat_call w i path = None \<or> open_call w (i + 1) path = None"
      by (rule spec)
    then show "stat_call w i (blocklistPath ?m) = None \<or> open_call w (i + 1) (blocklistPath ?m) = None"
      by (simp only: constructed_load(3))
  qed
  have "fst (checkDomain w t ?m d) = Some (False, '''')"
    by (cases rule: checkDomain_cases [of w t ?m d]) (simp_all add: keep none)
  then show "fst (checkDomain w t (snd (new_BlocklistManager w t0 path)) d) = Some (False, '''')"
    unfolding m0 .
qed

theorem checkDomain_always_answers_witness:
  "fst (checkDomain (steady_world ''0.0.0.0 x.com'') 2 (constructed ''0.0.0.0 x.com'') ''Example.ORG'') =
     Some (False, '''') \<and>
   blocklist (snd (new_BlocklistManager missing_world 0 ''/data/etc/hosts'')) = Map.empty \<and>
   fst (checkDomain missing_world 2 (snd (new_BlocklistManager missing_world 0 ''/data/etc/hosts''))
          ''x.com'') = Some (False, '''')"
proof -
  let ?c = "''0.0.0.0 x.com''"
  let ?m = "constructed ?c"
  have inv: "mgr_inv ?m"
    by (rule mgr_inv_constructed)
  have quiet: "\<not> fst (shouldReload (steady_world ?c) 2 ?m)"
    by code_simp
  have run: "checkDomain (steady_world ?c) 2 ?m ''Example.ORG'' =
      (lookupDomain ?m (map tolower ''Example.ORG''), snd (shouldReload (steady_world ?c) 2 ?m), ?m)"
    using quiet by (rule checkDomain_no_reload)
  have low: "map tolower ''Example.ORG'' = ''example.org''"
    by code_simp
  have cands: "wildcard_candidates ''example.org'' = [''.org'']"
    by code_simp
  have e1: "blocklist ?m ''example.org'' = None"
    by code_simp
  have e2: "blocklist ?m ''.org'' = None"
    by code_simp
  have "lookupDomain ?m (map tolower ''Example.ORG'') = Some (False, '''')"
    using checkDomain_always_answers [of ?m "steady_world ?c" 2 "''Example.ORG''", THEN conjunct1,
        rule_format, OF conjI, OF inv run, THEN conjunct2]
      e1 e2 unfolding low cands by simp
  then have first: "fst (checkDomain (steady_world ?c) 2 ?m ''Example.ORG'') = Some (False, '''')"
    by (simp only: run fst_conv)
  have "\<forall>i. stat_call missing_world i ''/data/etc/hosts'' = None \<or>
      open_call missing_world (i + 1) ''/data/etc/hosts'' = None"
    by (simp add: stat_call_def missing_world_def)
  with checkDomain_always_answers [of _ missing_world _ "''x.com''" _ _ _ "''/data/etc/hosts''" 0,
      THEN conjunct2]
  have "blocklist (snd (new_BlocklistManager missing_world 0 ''/data/etc/hosts'')) = Map.empty \<and>
      fst (checkDomain missing_world 2 (snd (new_BlocklistManager missing_world 0 ''/data/etc/hosts''))
          ''x.com'') = Some (False, '''')"
    by (rule mp)
  with first show ?thesis by (intro conjI) simp_all
qed

end
